theory Spec2Isabelle
  imports Main "HOL-Library.Word" "HOL-Library.Sublist"
begin

unbundle bit_operations_syntax

section \<open>The bit stream of core/bitStream.cpp\<close>

text \<open>
  The engine's fixed-width types: \<open>U8\<close> is a byte, \<open>S32\<close> and \<open>U32\<close> are 32-bit
  words (\<open>sint\<close> reads the two's complement value), and an \<open>F32\<close> is carried as its
  32-bit pattern. The cursor, the bit counts and the sizes of the stream are \<open>S32\<close>
  and \<open>U32\<close> values in the engine. They are integers here, \<open>>> 3\<close> being \<open>div 8\<close> and
  \<open>& 7\<close> being \<open>mod 8\<close>, and 32-bit arithmetic wraps: every sum, difference and shift
  of them that the code computes in 32 bits is taken back into the range of its type,
  by \<open>wrapS32\<close> into \<open>[-2^31, 2^31)\<close> and by \<open>wrapU32\<close> into \<open>[0, 2^32)\<close>.
\<close>

type_synonym U8 = "8 word"
type_synonym S32 = "32 word"
type_synonym U32 = "32 word"
type_synonym F32 = "32 word"

definition wrapS32 :: "int \<Rightarrow> int" where
  "wrapS32 x = sint (word_of_int x :: 32 word)"

definition wrapU32 :: "int \<Rightarrow> int" where
  "wrapU32 x = uint (word_of_int x :: 32 word)"

datatype Point3F = Point3F (px: F32) (py: F32) (pz: F32)

text \<open>
  A memory access outside the region a pointer was bound to is undefined in C++.
  The model makes it a value: \<open>OutOfBounds i\<close> names the offending index,
  \<open>NullPointer\<close> is a dereferenced null pointer, and \<open>Diverges\<close> is a walk of the
  Huffman tables that never reaches a leaf.
\<close>

datatype fault = OutOfBounds int | NullPointer | Diverges

record BitStream =
  dataPtr :: "U8 list"
  bitNum :: int
  bufSize :: int
  error :: bool
  maxReadBitNum :: int
  maxWriteBitNum :: int
  stringBuffer :: "U8 list option"
  mCompressPoint :: Point3F
  mMinSpace :: int

text \<open>
  \<open>dataPtr\<close> is the region the stream was bound to, one list element per allocated
  byte; \<open>bufSize\<close> is the size the stream believes it has. \<open>stringBuffer\<close> is the
  caller's 256-byte scratch, \<open>None\<close> for a null pointer. \<open>mMinSpace\<close> is the field of
  the resizing subclasses.
\<close>

type_synonym 'a M = "BitStream \<Rightarrow> fault + ('a \<times> BitStream)"

definition returnM :: "'a \<Rightarrow> 'a M" where
  "returnM a s = Inr (a, s)"

definition bindM :: "'a M \<Rightarrow> ('a \<Rightarrow> 'b M) \<Rightarrow> 'b M" where
  "bindM f g s = (case f s of Inl e \<Rightarrow> Inl e | Inr (a, s') \<Rightarrow> g a s')"

definition bindF :: "fault + 'a \<Rightarrow> ('a \<Rightarrow> fault + 'b) \<Rightarrow> fault + 'b" where
  "bindF r g = (case r of Inl e \<Rightarrow> Inl e | Inr a \<Rightarrow> g a)"

definition ld :: "'a list \<Rightarrow> int \<Rightarrow> fault + 'a" where
  "ld m i = (if 0 \<le> i \<and> i < int (length m) then Inr (m ! nat i) else Inl (OutOfBounds i))"

definition sto :: "'a list \<Rightarrow> int \<Rightarrow> 'a \<Rightarrow> fault + 'a list" where
  "sto m i v = (if 0 \<le> i \<and> i < int (length m) then Inr (m[nat i := v]) else Inl (OutOfBounds i))"

subsection \<open>Buffer binding and position\<close>

definition clearCompressionPoint :: "unit M" where
  "clearCompressionPoint s = Inr ((), s\<lparr>mCompressPoint := Point3F 0 0 0\<rparr>)"

definition setCompressionPoint :: "Point3F \<Rightarrow> unit M" where
  "setCompressionPoint p s = Inr ((), s\<lparr>mCompressPoint := p\<rparr>)"

definition setStringBuffer :: "U8 list option \<Rightarrow> unit M" where
  "setStringBuffer buffer s = Inr ((), s\<lparr>stringBuffer := buffer\<rparr>)"

definition setBuffer :: "U8 list \<Rightarrow> int \<Rightarrow> int \<Rightarrow> unit M" where
  "setBuffer bufPtr size' maxSize s =
     clearCompressionPoint
       (s\<lparr>dataPtr := bufPtr, bitNum := 0, bufSize := size',
          maxReadBitNum := wrapS32 (size' * 8),
          maxWriteBitNum := wrapS32 ((if maxSize < 0 then size' else maxSize) * 8),
          error := False\<rparr>)"

definition getPosition :: "BitStream \<Rightarrow> int" where
  "getPosition s = wrapU32 (wrapS32 (bitNum s + 7) div 8)"

definition setPosition :: "int \<Rightarrow> bool M" where
  "setPosition pos s = Inr (True, s\<lparr>bitNum := wrapS32 (pos * 8)\<rparr>)"

text \<open>
  \<open>getPacketStream\<close> rebinds the process-wide stream to the process-wide packet
  buffer. \<open>MaxPacketDataSize\<close> comes from platform/event.h and is a parameter; the
  packet buffer is the region \<open>gPacketBuffer\<close> of that many bytes.
\<close>

definition getPacketStream :: "int \<Rightarrow> U8 list \<Rightarrow> int \<Rightarrow> bool M" where
  "getPacketStream MaxPacketDataSize gPacketBuffer writeSize =
     bindM (setBuffer gPacketBuffer (if writeSize = 0 then MaxPacketDataSize else writeSize)
              MaxPacketDataSize)
       (\<lambda>_. setPosition 0)"

subsection \<open>Raw bits\<close>

text \<open>
  \<open>writeBits\<close>: \<open>bitPtr\<close> is a raw pointer with no extent of its own, so the source is
  the memory seen from it, byte \<open>k\<close> being \<open>bitPtr k\<close>. The assertion macros compile
  to nothing in a release build and are left out.
\<close>

function writeBits_loop ::
  "(nat \<Rightarrow> U8) \<Rightarrow> nat \<Rightarrow> nat \<Rightarrow> int \<Rightarrow> nat \<Rightarrow> int \<Rightarrow> U8 \<Rightarrow> U8 list \<Rightarrow> fault + U8 list" where
  "writeBits_loop bitPtr upShift downShift endIdx k i curB m =
     (if i \<le> endIdx then
        bindF (sto m i (drop_bit downShift curB OR push_bit upShift (bitPtr k)))
          (\<lambda>m'. writeBits_loop bitPtr upShift downShift endIdx (Suc k) (i + 1) (bitPtr k) m')
      else Inr m)"
  by pat_completeness auto
termination
  by (relation "measure (\<lambda>(bitPtr, upShift, downShift, endIdx, k, i, curB, m). nat (endIdx + 1 - i))")
    auto

definition writeBits :: "int \<Rightarrow> (nat \<Rightarrow> U8) \<Rightarrow> unit M" where
  "writeBits bitCount bitPtr s =
     (if bitCount = 0 then Inr ((), s)
      else if wrapS32 (bitCount + bitNum s) > maxWriteBitNum s then Inr ((), s\<lparr>error := True\<rparr>)
      else
        let stIdx = bitNum s div 8;
            endIdx = wrapS32 (bitCount + bitNum s - 1) div 8;
            upShift = nat (bitNum s mod 8);
            downShift = 8 - upShift;
            lastMask = drop_bit (nat (7 - wrapS32 (bitNum s + bitCount - 1) mod 8)) (0xFF :: U8);
            startMask = drop_bit downShift (0xFF :: U8);
            curB = bitPtr 0
        in
          bindF (ld (dataPtr s) stIdx) (\<lambda>b0.
          bindF (sto (dataPtr s) stIdx (push_bit upShift curB OR (b0 AND startMask))) (\<lambda>m1.
          bindF (writeBits_loop bitPtr upShift downShift endIdx 1 (stIdx + 1) curB m1) (\<lambda>m2.
          bindF (ld m2 endIdx) (\<lambda>be.
          bindF (sto m2 endIdx (be AND lastMask)) (\<lambda>m3.
          Inr ((), s\<lparr>dataPtr := m3, bitNum := wrapS32 (bitNum s + bitCount)\<rparr>)))))))"

definition setBit :: "int \<Rightarrow> bool \<Rightarrow> unit M" where
  "setBit bitCount set' s =
     bindF (ld (dataPtr s) (bitCount div 8)) (\<lambda>b.
     bindF (sto (dataPtr s) (bitCount div 8)
              (if set' then b OR push_bit (nat (bitCount mod 8)) 1
               else b AND NOT (push_bit (nat (bitCount mod 8)) 1))) (\<lambda>m.
     Inr ((), s\<lparr>dataPtr := m\<rparr>)))"

definition testBit :: "int \<Rightarrow> bool M" where
  "testBit bitCount s =
     bindF (ld (dataPtr s) (bitCount div 8)) (\<lambda>b.
     Inr (b AND push_bit (nat (bitCount mod 8)) 1 \<noteq> 0, s))"

definition writeFlag :: "bool \<Rightarrow> bool M" where
  "writeFlag val s =
     (if wrapS32 (bitNum s + 1) > maxWriteBitNum s then Inr (False, s\<lparr>error := True\<rparr>)
      else
        bindF (ld (dataPtr s) (bitNum s div 8)) (\<lambda>b.
        bindF (sto (dataPtr s) (bitNum s div 8)
                 (if val then b OR push_bit (nat (bitNum s mod 8)) 1
                  else b AND NOT (push_bit (nat (bitNum s mod 8)) 1))) (\<lambda>m.
        Inr (val, s\<lparr>dataPtr := m, bitNum := wrapS32 (bitNum s + 1)\<rparr>))))"

text \<open>
  \<open>readBits\<close>: the destination is the caller's object, given with its prior bytes
  and returned updated. \<open>while (byteCount--)\<close> runs until the count is zero; each
  round first loads the byte after the current one.
\<close>

function readBits_loop ::
  "U8 list \<Rightarrow> nat \<Rightarrow> nat \<Rightarrow> int \<Rightarrow> int \<Rightarrow> int \<Rightarrow> U8 \<Rightarrow> U8 list \<Rightarrow> fault + U8 list" where
  "readBits_loop m downShift upShift byteCount i k curB dst =
     (if byteCount \<noteq> 0 then
        (case ld m (i + 1) of
           Inl e \<Rightarrow> Inl e
         | Inr nextB \<Rightarrow>
             (case sto dst k (drop_bit downShift curB OR push_bit upShift nextB) of
                Inl e \<Rightarrow> Inl e
              | Inr dst' \<Rightarrow>
                  readBits_loop m downShift upShift (wrapS32 (byteCount - 1)) (i + 1) (k + 1)
                    nextB dst'))
      else Inr dst)"
  by pat_completeness auto
termination
  by (relation "measure (\<lambda>(m, downShift, upShift, byteCount, i, k, curB, dst).
                   nat (int (length m) - i))")
    (auto simp: ld_def split: if_splits)

definition readBits :: "int \<Rightarrow> U8 list \<Rightarrow> (U8 list) M" where
  "readBits bitCount bitPtr s =
     (if bitCount = 0 then Inr (bitPtr, s)
      else if wrapS32 (bitCount + bitNum s) > maxReadBitNum s then Inr (bitPtr, s\<lparr>error := True\<rparr>)
      else
        let stIdx = bitNum s div 8;
            byteCount = wrapS32 (bitCount + 7) div 8;
            downShift = nat (bitNum s mod 8);
            upShift = 8 - downShift
        in
          bindF (ld (dataPtr s) stIdx) (\<lambda>curB.
          bindF (readBits_loop (dataPtr s) downShift upShift byteCount stIdx 0 curB bitPtr) (\<lambda>dst.
          Inr (dst, s\<lparr>bitNum := wrapS32 (bitNum s + bitCount)\<rparr>))))"

text \<open>
  Modelled from the spec: \<open>readFlag\<close> is defined inline in core/bitStream.h, which is
  not among the sources. The spec gives it as the single-bit read at the cursor
  (\<open>bit_cursor\<close> counts bits from bit 0, the least significant, of \<open>data[0]\<close>) and
  says that a read past \<open>max_read_bits\<close> sets \<open>error\<close> and is a no-op. Its arithmetic
  on the cursor is that of \<open>writeFlag\<close>.
\<close>

definition readFlag :: "bool M" where
  "readFlag s =
     (if wrapS32 (bitNum s + 1) > maxReadBitNum s then Inr (False, s\<lparr>error := True\<rparr>)
      else
        bindF (ld (dataPtr s) (bitNum s div 8)) (\<lambda>b.
        Inr (bit b (nat (bitNum s mod 8)), s\<lparr>bitNum := wrapS32 (bitNum s + 1)\<rparr>)))"


subsection \<open>Integers\<close>

text \<open>
  \<open>writeInt\<close> converts \<open>val\<close> to little-endian byte order and hands its address to
  \<open>writeBits\<close>: byte \<open>k\<close> of the source is bits \<open>8k .. 8k+7\<close> of \<open>val\<close>. What lies
  in memory after the four bytes of \<open>val\<close> never reaches the buffer (lemma
  \<open>writeBits_src_cong\<close> below), and is zero here. \<open>readInt\<close> reads into the four
  zeroed bytes of its local \<open>ret\<close>. The shift \<open>1 << bitCount\<close> is a 32-bit shift.
\<close>

definition le_bytes :: "32 word \<Rightarrow> nat \<Rightarrow> U8" where
  "le_bytes v k = ucast (drop_bit (8 * k) v)"

definition word_of_bytes :: "U8 list \<Rightarrow> 32 word" where
  "word_of_bytes d =
     ucast (d ! 0) OR push_bit 8 (ucast (d ! 1)) OR push_bit 16 (ucast (d ! 2))
       OR push_bit 24 (ucast (d ! 3))"

definition readInt :: "int \<Rightarrow> S32 M" where
  "readInt bitCount =
     bindM (readBits bitCount [0, 0, 0, 0]) (\<lambda>d.
       returnM (let ret = word_of_bytes d in
                if bitCount = 32 then ret
                else ret AND (push_bit (nat bitCount) 1 - 1)))"

definition writeInt :: "S32 \<Rightarrow> int \<Rightarrow> unit M" where
  "writeInt val bitCount = writeBits bitCount (le_bytes val)"

definition writeSignedInt :: "S32 \<Rightarrow> int \<Rightarrow> unit M" where
  "writeSignedInt val bitCount =
     bindM (writeFlag (sint val < 0)) (\<lambda>f.
       if f then writeInt (- val) (wrapS32 (bitCount - 1))
       else writeInt val (wrapS32 (bitCount - 1)))"

definition readSignedInt :: "int \<Rightarrow> S32 M" where
  "readSignedInt bitCount =
     bindM readFlag (\<lambda>f.
       if f then bindM (readInt (wrapS32 (bitCount - 1))) (\<lambda>r. returnM (- r))
       else readInt (wrapS32 (bitCount - 1)))"

subsection \<open>Growth variants\<close>

text \<open>
  The allocator (\<open>dMalloc\<close>, \<open>dRealloc\<close>, \<open>dFree\<close>, \<open>dMemcpy\<close>) belongs to the platform
  layer. A fresh block has unspecified content, given here by \<open>junk\<close>; \<open>dRealloc\<close>
  keeps the old bytes up to the smaller of the two sizes; \<open>dMemcpy\<close> of \<open>n\<close> bytes
  needs \<open>n\<close> bytes on both sides. \<open>getPosition\<close> returns a \<open>U32\<close>, so the sums with it
  and the comparisons with \<open>bufSize\<close> are unsigned; \<open>bufSize\<close> and the two ceilings are
  \<open>S32\<close> fields.
\<close>

definition dMalloc :: "(nat \<Rightarrow> U8) \<Rightarrow> int \<Rightarrow> U8 list" where
  "dMalloc junk n = map junk [0 ..< nat n]"

definition dRealloc :: "(nat \<Rightarrow> U8) \<Rightarrow> U8 list \<Rightarrow> int \<Rightarrow> U8 list" where
  "dRealloc junk old n = map (\<lambda>i. if i < length old then old ! i else junk i) [0 ..< nat n]"

definition dMemcpy :: "U8 list \<Rightarrow> U8 list \<Rightarrow> int \<Rightarrow> fault + U8 list" where
  "dMemcpy dst src n =
     (if n < 0 \<or> int (length src) < n then Inl (OutOfBounds (int (length src)))
      else if int (length dst) < n then Inl (OutOfBounds (int (length dst)))
      else Inr (take (nat n) src @ drop (nat n) dst))"

definition ResizeBitStream_validate :: "(nat \<Rightarrow> U8) \<Rightarrow> unit M" where
  "ResizeBitStream_validate junk s =
     (if wrapU32 (getPosition s + mMinSpace s) > wrapU32 (bufSize s) then
        (let bufSize' = wrapS32 (getPosition s + mMinSpace s * 2)
         in Inr ((), s\<lparr>bufSize := bufSize',
                        dataPtr := dRealloc junk (dataPtr s) bufSize',
                        maxReadBitNum := wrapS32 (bufSize' * 8),
                        maxWriteBitNum := wrapS32 (bufSize' * 8)\<rparr>))
      else Inr ((), s))"

definition InfiniteBitStream_reset :: "unit M" where
  "InfiniteBitStream_reset = bindM (setPosition 0) (\<lambda>_. returnM ())"

definition InfiniteBitStream_validate :: "(nat \<Rightarrow> U8) \<Rightarrow> int \<Rightarrow> unit M" where
  "InfiniteBitStream_validate junk upcomingBytes s =
     (if wrapU32 (getPosition s + upcomingBytes + mMinSpace s) > wrapU32 (bufSize s) then
        (let bufSize' = wrapS32 (getPosition s + upcomingBytes + mMinSpace s)
         in Inr ((), s\<lparr>bufSize := bufSize',
                        dataPtr := dRealloc junk (dataPtr s) bufSize',
                        maxReadBitNum := wrapS32 (bufSize' * 8),
                        maxWriteBitNum := wrapS32 (bufSize' * 8)\<rparr>))
      else Inr ((), s))"

definition compact :: "(nat \<Rightarrow> U8) \<Rightarrow> unit M" where
  "compact junk s =
     (let oldSize = bufSize s;
          tmp = dMalloc junk (bufSize s);
          bufSize' = wrapS32 (getPosition s + mMinSpace s * 2)
      in bindF (dMemcpy tmp (dataPtr s) oldSize) (\<lambda>tmp'.
           Inr ((), s\<lparr>bufSize := bufSize', dataPtr := tmp',
                          maxReadBitNum := wrapS32 (bufSize' * 8),
                          maxWriteBitNum := wrapS32 (bufSize' * 8)\<rparr>)))"

subsection \<open>The Huffman processor\<close>

text \<open>
  Modelled from the spec: \<open>getCurPos\<close>, \<open>setCurPos\<close> and the constructor are defined
  in core/bitStream.h, which is not among the sources. The spec gives a bit-level
  cursor accessor beside the byte-level one, used by the code-generation walk to
  rewind, and a fixed stream bound to a caller's buffer as \<open>setBuffer\<close> binds it,
  with no string scratch.
\<close>

definition getCurPos :: "BitStream \<Rightarrow> int" where
  "getCurPos s = bitNum s"

definition setCurPos :: "int \<Rightarrow> unit M" where
  "setCurPos pos s = Inr ((), s\<lparr>bitNum := pos\<rparr>)"

definition newBitStream :: "U8 list \<Rightarrow> int \<Rightarrow> BitStream" where
  "newBitStream bufPtr size' =
     \<lparr>dataPtr = bufPtr, bitNum = 0, bufSize = size', error = False,
      maxReadBitNum = wrapS32 (size' * 8), maxWriteBitNum = wrapS32 (size' * 8),
      stringBuffer = None, mCompressPoint = Point3F 0 0 0, mMinSpace = 0\<rparr>"

record HuffNode =
  pop :: U32
  index0 :: int
  index1 :: int

record HuffLeaf =
  pop :: U32
  numBits :: U8
  symbol :: U8
  code :: U32

text \<open>A \<open>HuffWrap\<close> holds two pointers into the two vectors, here two optional indices.\<close>

record HuffWrap =
  pNode :: "nat option"
  pLeaf :: "nat option"

record HuffmanProcessor =
  m_tablesBuilt :: bool
  m_huffNodes :: "HuffNode list"
  m_huffLeaves :: "HuffLeaf list"

definition csm_charFreqs :: "U32 list" where
  "csm_charFreqs =
     [0, 0, 0, 0, 0, 0, 0, 0, 0, 329, 21, 0, 0, 0, 0, 0,
      0, 0, 0, 0, 0, 0, 0, 0, 0, 0, 0, 0, 0, 0, 0, 0,
      2809, 68, 0, 27, 0, 58, 3, 62, 4, 7, 0, 0, 15, 65, 554, 3,
      394, 404, 189, 117, 30, 51, 27, 15, 34, 32, 80, 1, 142, 3, 142, 39,
      0, 144, 125, 44, 122, 275, 70, 135, 61, 127, 8, 12, 113, 246, 122, 36,
      185, 1, 149, 309, 335, 12, 11, 14, 54, 151, 0, 0, 2, 0, 0, 211,
      0, 2090, 344, 736, 993, 2872, 701, 605, 646, 1552, 328, 305, 1240, 735, 1533, 1713,
      562, 3, 1775, 1149, 1469, 979, 407, 553, 59, 279, 31, 0, 0, 0, 68, 0,
      0, 0, 0, 0, 0, 0, 0, 0, 0, 0, 0, 0, 0, 0, 0, 0,
      0, 0, 0, 0, 0, 0, 0, 0, 0, 0, 0, 0, 0, 0, 0, 0,
      0, 0, 0, 0, 0, 0, 0, 0, 0, 0, 0, 0, 0, 0, 0, 0,
      0, 0, 0, 0, 0, 0, 0, 0, 0, 0, 0, 0, 0, 0, 0, 0,
      0, 0, 0, 0, 0, 0, 0, 0, 0, 0, 0, 0, 0, 0, 0, 0,
      0, 0, 0, 0, 0, 0, 0, 0, 0, 0, 0, 0, 0, 0, 0, 0,
      0, 0, 0, 0, 0, 0, 0, 0, 0, 0, 0, 0, 0, 0, 0, 0,
      0, 0, 0, 0, 0, 0, 0, 0, 0, 0, 0, 0, 0, 0, 0, 0]"

definition getPop :: "HuffmanProcessor \<Rightarrow> HuffWrap \<Rightarrow> fault + U32" where
  "getPop hp w =
     (case pNode w of
        Some n \<Rightarrow> bindF (ld (m_huffNodes hp) (int n)) (\<lambda>nd. Inr (HuffNode.pop nd))
      | None \<Rightarrow>
          (case pLeaf w of
             Some l \<Rightarrow> bindF (ld (m_huffLeaves hp) (int l)) (\<lambda>lf. Inr (HuffLeaf.pop lf))
           | None \<Rightarrow> Inl NullPointer))"

definition determineIndex :: "HuffWrap \<Rightarrow> fault + int" where
  "determineIndex rWrap =
     (case pLeaf rWrap of
        Some l \<Rightarrow> Inr (- (int l + 1))
      | None \<Rightarrow> (case pNode rWrap of Some n \<Rightarrow> Inr (int n) | None \<Rightarrow> Inl NullPointer))"

text \<open>
  The scan for the two wraps of smallest population, \<open>for (i = 0; i < currWraps; i++)\<close>.
  The locals \<open>index1\<close> and \<open>index2\<close> of \<open>buildTables\<close> are \<open>idx1\<close> and \<open>idx2\<close> here, the
  names being taken by the fields of \<open>HuffNode\<close>.
\<close>

function buildTables_scan ::
  "HuffmanProcessor \<Rightarrow> HuffWrap list \<Rightarrow> int \<Rightarrow> int \<Rightarrow> U32 \<times> U32 \<times> int \<times> int
     \<Rightarrow> fault + U32 \<times> U32 \<times> int \<times> int" where
  "buildTables_scan hp pWrap currWraps i (min1, min2, idx1, idx2) =
     (if i < currWraps then
        (case bindF (ld pWrap i) (getPop hp) of
           Inl e \<Rightarrow> Inl e
         | Inr p \<Rightarrow>
             buildTables_scan hp pWrap currWraps (i + 1)
               (if p < min1 then (p, min1, i, idx1)
                else if p < min2 then (min1, p, idx1, i)
                else (min1, min2, idx1, idx2)))
      else Inr (min1, min2, idx1, idx2))"
  by pat_completeness auto
termination
  by (relation "measure (\<lambda>(hp, pWrap, currWraps, i, acc). nat (currWraps - i))") auto

text \<open>
  One round of \<open>while (currWraps != 1)\<close>: link the two smallest wraps under a new
  node, put the node where the lower of the two was, and move the last active wrap
  into the other place.
\<close>

definition buildTables_round ::
  "HuffmanProcessor \<Rightarrow> HuffWrap list \<Rightarrow> int \<Rightarrow> fault + HuffmanProcessor \<times> HuffWrap list" where
  "buildTables_round hp pWrap currWraps =
     bindF (buildTables_scan hp pWrap currWraps 0 (0xfffffffe, 0xffffffff, - 1, - 1))
       (\<lambda>(min1, min2, idx1, idx2).
     bindF (ld pWrap idx1) (\<lambda>w1.
     bindF (ld pWrap idx2) (\<lambda>w2.
     let hp1 = hp\<lparr>m_huffNodes := m_huffNodes hp @ [\<lparr>HuffNode.pop = 0, index0 = 0, index1 = 0\<rparr>]\<rparr>;
         last = int (length (m_huffNodes hp1)) - 1
     in
     bindF (getPop hp1 w1) (\<lambda>p1.
     bindF (getPop hp1 w2) (\<lambda>p2.
     bindF (determineIndex w1) (\<lambda>i0.
     bindF (determineIndex w2) (\<lambda>i1.
     bindF (sto (m_huffNodes hp1) last \<lparr>HuffNode.pop = p1 + p2, index0 = i0, index1 = i1\<rparr>) (\<lambda>nodes.
     let mergeIndex = (if idx1 > idx2 then idx2 else idx1);
         nukeIndex = (if idx1 > idx2 then idx1 else idx2)
     in
     bindF (sto pWrap mergeIndex \<lparr>pNode = Some (nat last), pLeaf = None\<rparr>) (\<lambda>pWrap1.
     bindF (if idx2 \<noteq> currWraps - 1
            then bindF (ld pWrap1 (currWraps - 1)) (sto pWrap1 nukeIndex)
            else Inr pWrap1) (\<lambda>pWrap2.
     Inr (hp1\<lparr>m_huffNodes := nodes\<rparr>, pWrap2)))))))))))"

lemma buildTables_scan_empty:
  "buildTables_scan hp pWrap currWraps i acc = Inr r \<Longrightarrow> currWraps \<le> i \<Longrightarrow> r = acc"
  by (cases acc) (simp add: buildTables_scan.simps)

lemma buildTables_round_positive:
  "buildTables_round hp pWrap currWraps = Inr r \<Longrightarrow> 0 < currWraps"
proof (rule ccontr)
  assume r: "buildTables_round hp pWrap currWraps = Inr r" and "\<not> 0 < currWraps"
  then have "buildTables_scan hp pWrap currWraps 0 (0xfffffffe, 0xffffffff, - 1, - 1)
               = Inr (0xfffffffe, 0xffffffff, - 1, - 1)"
    by (simp add: buildTables_scan.simps)
  with r show False
    by (simp add: buildTables_round_def bindF_def ld_def)
qed

function buildTables_loop ::
  "HuffmanProcessor \<Rightarrow> HuffWrap list \<Rightarrow> int \<Rightarrow> fault + HuffmanProcessor \<times> HuffWrap list" where
  "buildTables_loop hp pWrap currWraps =
     (if currWraps \<noteq> 1 then
        (case buildTables_round hp pWrap currWraps of
           Inl e \<Rightarrow> Inl e
         | Inr (hp', pWrap') \<Rightarrow> buildTables_loop hp' pWrap' (currWraps - 1))
      else Inr (hp, pWrap))"
  by pat_completeness auto
termination
  by (relation "measure (\<lambda>(hp, pWrap, currWraps). nat currWraps)")
    (auto dest: buildTables_round_positive)

text \<open>
  \<open>generateCodes\<close> walks the tree from a node index. It returns for every acyclic
  table; the walk is cut off after \<open>fuel\<close> nested calls, and \<open>buildTables\<close> gives it
  one call more than there are nodes, which no acyclic table needs.
\<close>

fun generateCodes ::
  "nat \<Rightarrow> HuffNode list \<Rightarrow> HuffLeaf list \<Rightarrow> BitStream \<Rightarrow> int \<Rightarrow> int
     \<Rightarrow> fault + HuffLeaf list \<times> BitStream" where
  "generateCodes 0 nodes leaves rBS index depth = Inl Diverges"
| "generateCodes (Suc fuel) nodes leaves rBS index depth =
     (if index < 0 then
        bindF (ld leaves (- (index + 1))) (\<lambda>rLeaf.
        bindF (dMemcpy [0, 0, 0, 0] (dataPtr rBS) 4) (\<lambda>c.
        bindF (sto leaves (- (index + 1))
                 (rLeaf\<lparr>code := word_of_bytes c, numBits := word_of_int depth\<rparr>)) (\<lambda>leaves'.
        Inr (leaves', rBS))))
      else
        bindF (ld nodes index) (\<lambda>rNode.
        let pos = getCurPos rBS in
        bindF (writeFlag False rBS) (\<lambda>(_, bs1).
        bindF (generateCodes fuel nodes leaves bs1 (index0 rNode) (depth + 1)) (\<lambda>(leaves1, bs2).
        bindF (setCurPos pos bs2) (\<lambda>(_, bs3).
        bindF (writeFlag True bs3) (\<lambda>(_, bs4).
        bindF (generateCodes fuel nodes leaves1 bs4 (index1 rNode) (depth + 1)) (\<lambda>(leaves2, bs5).
        bindF (setCurPos pos bs5) (\<lambda>(_, bs6).
        Inr (leaves2, bs6)))))))))"

definition buildTables :: "HuffmanProcessor \<Rightarrow> fault + HuffmanProcessor" where
  "buildTables hp =
     (let hp0 = hp\<lparr>m_tablesBuilt := True,
                    m_huffLeaves :=
                      map (\<lambda>i. \<lparr>pop = csm_charFreqs ! i + 1, numBits = 0, symbol = of_nat i, code = 0\<rparr>)
                        [0 ..< 256],
                    m_huffNodes := m_huffNodes hp @ [\<lparr>HuffNode.pop = 0, index0 = 0, index1 = 0\<rparr>]\<rparr>;
          pWrap = map (\<lambda>i. \<lparr>pNode = None, pLeaf = Some i\<rparr>) [0 ..< 256]
      in
      bindF (buildTables_loop hp0 pWrap 256) (\<lambda>(hp1, pWrap1).
      bindF (ld pWrap1 0) (\<lambda>w0.
      bindF (case pNode w0 of None \<Rightarrow> Inl NullPointer | Some n \<Rightarrow> ld (m_huffNodes hp1) (int n)) (\<lambda>root.
      bindF (sto (m_huffNodes hp1) 0 root) (\<lambda>nodes.
      bindF (generateCodes (Suc (length nodes)) nodes (m_huffLeaves hp1)
               (newBitStream [0, 0, 0, 0] 4) 0 0) (\<lambda>(leaves, _).
      Inr (hp1\<lparr>m_huffNodes := nodes, m_huffLeaves := leaves\<rparr>)))))))"

subsection \<open>Strings\<close>

text \<open>
  A \<open>const char*\<close> argument is given by the bytes in front of its terminator (a null
  pointer is \<open>None\<close>): the memory behind the pointer is the list followed by a NUL,
  and the string ends at the first NUL. \<open>dStrlen\<close>, \<open>dStrncpy\<close> and \<open>dStrcpy\<close> are the
  platform's \<open>strlen\<close>, \<open>strncpy\<close> and \<open>strcpy\<close>.
\<close>

definition cchar :: "U8 list \<Rightarrow> nat \<Rightarrow> U8" where
  "cchar str k = (if k < length str then str ! k else 0)"

definition dStrlen :: "U8 list \<Rightarrow> int" where
  "dStrlen str = int (length (takeWhile (\<lambda>c. c \<noteq> 0) str))"

definition dStrncpy :: "U8 list \<Rightarrow> U8 list \<Rightarrow> int \<Rightarrow> fault + U8 list" where
  "dStrncpy dst src n =
     (if n < 0 \<or> int (length dst) < n then Inl (OutOfBounds (int (length dst)))
      else Inr (map (\<lambda>k. if int k < dStrlen src then src ! k else 0) [0 ..< nat n]
                @ drop (nat n) dst))"

definition dStrcpy :: "U8 list \<Rightarrow> U8 list \<Rightarrow> fault + U8 list" where
  "dStrcpy dst src =
     (let n = length (takeWhile (\<lambda>c. c \<noteq> 0) src)
      in if length src \<le> n then Inl (OutOfBounds (int (length src)))
         else if length dst \<le> n then Inl (OutOfBounds (int (length dst)))
         else Inr (take (Suc n) src @ drop (Suc n) dst))"

definition liftF :: "fault + 'a \<Rightarrow> 'a M" where
  "liftF r s = (case r of Inl e \<Rightarrow> Inl e | Inr a \<Rightarrow> Inr (a, s))"

definition ensureTables :: "HuffmanProcessor \<Rightarrow> fault + HuffmanProcessor" where
  "ensureTables hp = (if m_tablesBuilt hp = False then buildTables hp else Inr hp)"

text \<open>\<open>BitStream::_read\<close> and \<open>BitStream::_write\<close>; a name cannot start with an underscore here.\<close>

definition read_raw :: "int \<Rightarrow> U8 list \<Rightarrow> (bool \<times> U8 list) M" where
  "read_raw size' dst = bindM (readBits (wrapS32 (size' * 8)) dst) (\<lambda>d. returnM (True, d))"

definition write_raw :: "int \<Rightarrow> (nat \<Rightarrow> U8) \<Rightarrow> bool M" where
  "write_raw size' src = bindM (writeBits (wrapS32 (size' * 8)) src) (\<lambda>_. returnM True)"

text \<open>\<open>for (i = 0; i < len; i++) numBits += m_huffLeaves[(unsigned char)out_pBuffer[i]].numBits\<close>\<close>

function writeHuffBuffer_count :: "HuffLeaf list \<Rightarrow> U8 list \<Rightarrow> int \<Rightarrow> int \<Rightarrow> int \<Rightarrow> fault + int" where
  "writeHuffBuffer_count leaves buf len i numBits' =
     (if i < len then
        (case ld leaves (uint (cchar buf (nat i))) of
           Inl e \<Rightarrow> Inl e
         | Inr rLeaf \<Rightarrow>
             writeHuffBuffer_count leaves buf len (i + 1)
               (wrapS32 (numBits' + uint (numBits rLeaf))))
      else Inr numBits')"
  by pat_completeness auto
termination
  by (relation "measure (\<lambda>(leaves, buf, len, i, n). nat (len - i))") auto

text \<open>\<open>for (i = 0; i < len; i++) pStream->writeBits(rLeaf.numBits, &rLeaf.code)\<close>\<close>

function writeHuffBuffer_codes :: "HuffLeaf list \<Rightarrow> U8 list \<Rightarrow> int \<Rightarrow> int \<Rightarrow> unit M" where
  "writeHuffBuffer_codes leaves buf len i s =
     (if i < len then
        (case ld leaves (uint (cchar buf (nat i))) of
           Inl e \<Rightarrow> Inl e
         | Inr rLeaf \<Rightarrow>
             (case writeBits (uint (numBits rLeaf)) (le_bytes (code rLeaf)) s of
                Inl e \<Rightarrow> Inl e
              | Inr (_, s') \<Rightarrow> writeHuffBuffer_codes leaves buf len (i + 1) s'))
      else Inr ((), s))"
  by pat_completeness auto
termination
  by (relation "measure (\<lambda>(leaves, buf, len, i, s). nat (len - i))") auto

definition writeHuffBuffer ::
  "HuffmanProcessor \<Rightarrow> U8 list option \<Rightarrow> int \<Rightarrow> (bool \<times> HuffmanProcessor) M" where
  "writeHuffBuffer hp out_pBuffer maxLen =
     (case out_pBuffer of
        None \<Rightarrow>
          bindM (writeFlag False) (\<lambda>_.
          bindM (writeInt 0 8) (\<lambda>_.
          returnM (True, hp)))
      | Some buf \<Rightarrow>
          bindM (liftF (ensureTables hp)) (\<lambda>hp'.
          let len = (if dStrlen buf > maxLen then maxLen else dStrlen buf) in
          bindM (liftF (writeHuffBuffer_count (m_huffLeaves hp') buf len 0 0)) (\<lambda>numBits'.
          if numBits' \<ge> wrapS32 (len * 8) then
            bindM (writeFlag False) (\<lambda>_.
            bindM (writeInt (word_of_int len) 8) (\<lambda>_.
            bindM (write_raw len (cchar buf)) (\<lambda>_.
            returnM (True, hp'))))
          else
            bindM (writeFlag True) (\<lambda>_.
            bindM (writeInt (word_of_int len) 8) (\<lambda>_.
            bindM (writeHuffBuffer_codes (m_huffLeaves hp') buf len 0) (\<lambda>_.
            returnM (True, hp')))))))"

text \<open>
  The decoder's \<open>while (true)\<close> descends from node 0 until the index is negative. Like
  \<open>generateCodes\<close> it returns on every acyclic table and is cut off after one step
  more than there are nodes.
\<close>

fun readHuffBuffer_descend :: "nat \<Rightarrow> HuffNode list \<Rightarrow> int \<Rightarrow> int M" where
  "readHuffBuffer_descend 0 nodes index s = Inl Diverges"
| "readHuffBuffer_descend (Suc fuel) nodes index s =
     (if index \<ge> 0 then
        (case readFlag s of
           Inl e \<Rightarrow> Inl e
         | Inr (f, s1) \<Rightarrow>
             (case ld nodes index of
                Inl e \<Rightarrow> Inl e
              | Inr nd \<Rightarrow>
                  readHuffBuffer_descend fuel nodes (if f then index1 nd else index0 nd) s1))
      else Inr (index, s))"

function readHuffBuffer_symbols ::
  "HuffmanProcessor \<Rightarrow> int \<Rightarrow> int \<Rightarrow> U8 list \<Rightarrow> int \<Rightarrow> (U8 list) M" where
  "readHuffBuffer_symbols hp len i out off s =
     (if i < len then
        (case readHuffBuffer_descend (Suc (length (m_huffNodes hp))) (m_huffNodes hp) 0 s of
           Inl e \<Rightarrow> Inl e
         | Inr (index, s1) \<Rightarrow>
             (case bindF (ld (m_huffLeaves hp) (- (index + 1)))
                     (\<lambda>rLeaf. sto out (off + i) (symbol rLeaf)) of
                Inl e \<Rightarrow> Inl e
              | Inr out' \<Rightarrow> readHuffBuffer_symbols hp len (i + 1) out' off s1))
      else Inr (out, s))"
  by pat_completeness auto
termination
  by (relation "measure (\<lambda>(hp, len, i, out, off, s). nat (len - i))") auto

text \<open>
  \<open>readHuffBuffer\<close> writes through \<open>out_pBuffer\<close>; the destination is the caller's
  region \<open>out\<close> and the pointer is \<open>out + off\<close>.
\<close>

definition readHuffBuffer ::
  "HuffmanProcessor \<Rightarrow> U8 list \<Rightarrow> int \<Rightarrow> (bool \<times> HuffmanProcessor \<times> U8 list) M" where
  "readHuffBuffer hp out off =
     bindM (liftF (ensureTables hp)) (\<lambda>hp'.
     bindM readFlag (\<lambda>f.
     if f then
       bindM (readInt 8) (\<lambda>len.
       bindM (readHuffBuffer_symbols hp' (sint len) 0 out off) (\<lambda>out1.
       bindM (liftF (sto out1 (off + sint len) 0)) (\<lambda>out2.
       returnM (True, hp', out2))))
     else
       bindM (readInt 8) (\<lambda>len.
       bindM (read_raw (uint len) (drop (nat off) out)) (\<lambda>(_, d).
       bindM (liftF (sto (take (nat off) out @ d) (off + uint len) 0)) (\<lambda>out2.
       returnM (True, hp', out2))))))"

text \<open>\<open>for (j = 0; j < maxLen && stringBuffer[j] == string[j] && string[j]; j++)\<close>\<close>

function writeString_prefix :: "U8 list \<Rightarrow> U8 list \<Rightarrow> int \<Rightarrow> int \<Rightarrow> fault + int" where
  "writeString_prefix sb str maxLen j =
     (if j < maxLen then
        (case ld sb j of
           Inl e \<Rightarrow> Inl e
         | Inr b \<Rightarrow>
             if b = cchar str (nat j) \<and> cchar str (nat j) \<noteq> 0
             then writeString_prefix sb str maxLen (j + 1)
             else Inr j)
      else Inr j)"
  by pat_completeness auto
termination
  by (relation "measure (\<lambda>(sb, str, maxLen, j). nat (maxLen - j))") auto

definition writeString ::
  "HuffmanProcessor \<Rightarrow> U8 list option \<Rightarrow> int \<Rightarrow> HuffmanProcessor M" where
  "writeString hp string maxLen s =
     (let str = (case string of None \<Rightarrow> [] | Some x \<Rightarrow> x) in
      case stringBuffer s of
        None \<Rightarrow>
          bindM (writeHuffBuffer hp (Some str) maxLen) (\<lambda>(_, hp'). returnM hp') s
      | Some sb \<Rightarrow>
          bindF (writeString_prefix sb str maxLen 0) (\<lambda>j.
          bindF (dStrncpy sb str maxLen) (\<lambda>sb1.
          bindF (sto sb1 maxLen 0) (\<lambda>sb2.
            bindM (writeFlag (j > 2)) (\<lambda>f.
              if f then
                bindM (writeInt (word_of_int j) 8) (\<lambda>_.
                bindM (writeHuffBuffer hp (Some (drop (nat j) str)) (maxLen - j)) (\<lambda>(_, hp').
                returnM hp'))
              else
                bindM (writeHuffBuffer hp (Some str) maxLen) (\<lambda>(_, hp'). returnM hp'))
              (s\<lparr>stringBuffer := Some sb2\<rparr>)))))"

definition readString :: "HuffmanProcessor \<Rightarrow> U8 list \<Rightarrow> (HuffmanProcessor \<times> U8 list) M" where
  "readString hp buf s =
     (let plain =
            bindM (readHuffBuffer hp buf 0) (\<lambda>(_, hp', buf').
              (\<lambda>s'. case stringBuffer s' of
                      None \<Rightarrow> Inr ((hp', buf'), s')
                    | Some sb \<Rightarrow>
                        bindF (dStrcpy sb buf') (\<lambda>sb'.
                          Inr ((hp', buf'), s'\<lparr>stringBuffer := Some sb'\<rparr>))))
      in
      case stringBuffer s of
        None \<Rightarrow> plain s
      | Some sb \<Rightarrow>
          bindM readFlag (\<lambda>f.
            if f then
              bindM (readInt 8) (\<lambda>offset.
              bindM (readHuffBuffer hp sb (sint offset)) (\<lambda>(_, hp', sb').
              (\<lambda>s'. bindF (dStrcpy buf sb') (\<lambda>buf'.
                       Inr ((hp', buf'), s'\<lparr>stringBuffer := Some sb'\<rparr>)))))
            else plain) s)"

subsection \<open>Floats, vectors and transforms\<close>

text \<open>
  Floating-point arithmetic and the math library (\<open>mSqrt\<close>, \<open>mAtan\<close>, \<open>mSin\<close>, \<open>mCos\<close>,
  \<open>mFabs\<close>, \<open>mClampF\<close>, \<open>Point3F::len\<close>, the quaternion and matrix conversions) are not
  defined in this file of the engine. They are a parameter of the model, the record
  \<open>FPU\<close>: every statement below holds whatever these operations compute. An \<open>F32\<close>
  travels as its 32-bit pattern, a double as its 64-bit pattern, a \<open>MatrixF\<close> as the
  list of its entries.
\<close>

type_synonym F64 = "64 word"
type_synonym MatrixF = "F32 list"

record FPU =
  f_add :: "F32 \<Rightarrow> F32 \<Rightarrow> F32"
  f_sub :: "F32 \<Rightarrow> F32 \<Rightarrow> F32"
  f_mul :: "F32 \<Rightarrow> F32 \<Rightarrow> F32"
  f_div :: "F32 \<Rightarrow> F32 \<Rightarrow> F32"
  f_neg :: "F32 \<Rightarrow> F32"
  f_lt :: "F32 \<Rightarrow> F32 \<Rightarrow> bool"
  f_of_s32 :: "S32 \<Rightarrow> F32"
  f_to_s32 :: "F32 \<Rightarrow> S32"
  f_of_d :: "F64 \<Rightarrow> F32"
  d_of_f :: "F32 \<Rightarrow> F64"
  d_of_s32 :: "S32 \<Rightarrow> F64"
  d_to_s32 :: "F64 \<Rightarrow> S32"
  d_sub :: "F64 \<Rightarrow> F64 \<Rightarrow> F64"
  d_mul :: "F64 \<Rightarrow> F64 \<Rightarrow> F64"
  d_div :: "F64 \<Rightarrow> F64 \<Rightarrow> F64"
  d_lt :: "F64 \<Rightarrow> F64 \<Rightarrow> bool"
  c_half :: F64
  c_one_d :: F64
  c_zero_d :: F64
  c_pi :: F64
  c_half_pi :: F64
  c_2pi :: F64
  c_zero :: F32
  c_one :: F32
  c_minus_one :: F32
  c_epsilon :: F32
  mSqrt :: "F32 \<Rightarrow> F32"
  mAtan :: "F32 \<Rightarrow> F32 \<Rightarrow> F32"
  mSin :: "F32 \<Rightarrow> F32"
  mCos :: "F32 \<Rightarrow> F32"
  mFabs :: "F32 \<Rightarrow> F32"
  mClampF :: "F32 \<Rightarrow> F32 \<Rightarrow> F32 \<Rightarrow> F32"
  getMin :: "F32 \<Rightarrow> F32 \<Rightarrow> F32"
  Point3F_len :: "Point3F \<Rightarrow> F32"
  getColumn3 :: "MatrixF \<Rightarrow> Point3F"
  QuatF_normalized :: "MatrixF \<Rightarrow> F32 \<times> F32 \<times> F32 \<times> F32"
  setMatrix :: "F32 \<times> F32 \<times> F32 \<times> F32 \<Rightarrow> Point3F \<Rightarrow> MatrixF"

text \<open>
  Modelled from the spec: the typed \<open>write\<close> and \<open>read\<close> of an \<open>F32\<close> are templates of
  core/stream.h, which is not among the sources. The spec routes the primitive
  read and write of a fixed-width numeric type through \<open>readBits\<close> and \<open>writeBits\<close> of
  \<open>sizeof * 8\<close> bits, in little-endian byte order; here that is \<open>_read\<close> and \<open>_write\<close>
  of 4 bytes. A read goes into the caller's variable, whose prior value is \<open>old\<close>.
\<close>

definition write_F32 :: "F32 \<Rightarrow> bool M" where
  "write_F32 f = write_raw 4 (le_bytes f)"

definition read_F32 :: "F32 \<Rightarrow> F32 M" where
  "read_F32 old =
     bindM (read_raw 4 (map (le_bytes old) [0 ..< 4])) (\<lambda>(_, d). returnM (word_of_bytes d))"

definition writeFloat :: "FPU \<Rightarrow> F32 \<Rightarrow> int \<Rightarrow> unit M" where
  "writeFloat fp f bitCount =
     writeInt (f_to_s32 fp (f_mul fp f (f_of_s32 fp (push_bit (nat bitCount) 1 - 1)))) bitCount"

definition readFloat :: "FPU \<Rightarrow> int \<Rightarrow> F32 M" where
  "readFloat fp bitCount =
     bindM (readInt bitCount) (\<lambda>r.
       returnM (f_div fp (f_of_s32 fp r) (f_of_s32 fp (push_bit (nat bitCount) 1 - 1))))"

definition writeSignedFloat :: "FPU \<Rightarrow> F32 \<Rightarrow> int \<Rightarrow> unit M" where
  "writeSignedFloat fp f bitCount =
     writeInt
       (d_to_s32 fp
          (d_mul fp (d_mul fp (d_of_f fp (f_add fp f (f_of_s32 fp 1))) (c_half fp))
             (d_of_s32 fp (push_bit (nat bitCount) 1 - 1))))
       bitCount"

definition readSignedFloat :: "FPU \<Rightarrow> int \<Rightarrow> F32 M" where
  "readSignedFloat fp bitCount =
     bindM (readInt bitCount) (\<lambda>r.
       returnM (f_sub fp (f_div fp (f_of_s32 fp (r * 2))
                            (f_of_s32 fp (push_bit (nat bitCount) 1 - 1)))
                  (c_one fp)))"

definition writeNormalVector :: "FPU \<Rightarrow> Point3F \<Rightarrow> int \<Rightarrow> unit M" where
  "writeNormalVector fp vec bitCount =
     (let phi = f_of_d fp (d_div fp (d_of_f fp (mAtan fp (px vec) (py vec))) (c_pi fp));
          theta = f_of_d fp
                    (d_div fp
                       (d_of_f fp
                          (mAtan fp (pz vec)
                             (mSqrt fp (f_add fp (f_mul fp (px vec) (px vec))
                                          (f_mul fp (py vec) (py vec))))))
                       (c_half_pi fp))
      in bindM (writeSignedFloat fp phi (wrapS32 (bitCount + 1))) (\<lambda>_.
         writeSignedFloat fp theta bitCount))"

definition readNormalVector :: "FPU \<Rightarrow> int \<Rightarrow> Point3F M" where
  "readNormalVector fp bitCount =
     bindM (readSignedFloat fp (wrapS32 (bitCount + 1))) (\<lambda>r1.
     bindM (readSignedFloat fp bitCount) (\<lambda>r2.
     let phi = f_of_d fp (d_mul fp (d_of_f fp r1) (c_pi fp));
         theta = f_of_d fp (d_mul fp (d_of_f fp r2) (c_half_pi fp))
     in returnM (Point3F (f_mul fp (mSin fp phi) (mCos fp theta))
                         (f_mul fp (mCos fp phi) (mCos fp theta))
                         (mSin fp theta))))"

definition dumbDownNormal :: "FPU \<Rightarrow> U8 list \<Rightarrow> Point3F \<Rightarrow> int \<Rightarrow> fault + Point3F" where
  "dumbDownNormal fp buffer vec bitCount =
     bindF (writeNormalVector fp vec bitCount (newBitStream buffer 128)) (\<lambda>(_, temp1).
     bindF (setCurPos 0 temp1) (\<lambda>(_, temp2).
     bindF (readNormalVector fp bitCount temp2) (\<lambda>(ret, _). Inr ret)))"

text \<open>
  The overloads of \<open>writeNormalVector\<close> and \<open>readNormalVector\<close> with separate angle and
  z widths carry a \<open>2\<close> in their names. Where a reader assigns every component of
  its result, the result is returned; where a read can leave a variable untouched,
  the variable's prior value is an argument (\<open>mag0\<close>, \<open>pos0\<close>, \<open>q0\<close>).
\<close>

definition writeNormalVector2 :: "FPU \<Rightarrow> Point3F \<Rightarrow> int \<Rightarrow> int \<Rightarrow> unit M" where
  "writeNormalVector2 fp vec angleBitCount zBitCount =
     bindM (writeSignedFloat fp (mClampF fp (pz vec) (c_minus_one fp) (c_one fp)) zBitCount) (\<lambda>_.
       if f_lt fp (c_epsilon fp) (mFabs fp (px vec)) \<or> f_lt fp (c_epsilon fp) (mFabs fp (py vec))
       then writeSignedFloat fp
              (f_of_d fp (d_div fp (d_of_f fp (mAtan fp (px vec) (py vec))) (c_2pi fp)))
              angleBitCount
       else writeSignedFloat fp (c_zero fp) angleBitCount)"

definition readNormalVector2 :: "FPU \<Rightarrow> int \<Rightarrow> int \<Rightarrow> Point3F M" where
  "readNormalVector2 fp angleBitCount zBitCount =
     bindM (readSignedFloat fp zBitCount) (\<lambda>z.
     bindM (readSignedFloat fp angleBitCount) (\<lambda>r.
     let angle = f_of_d fp (d_mul fp (c_2pi fp) (d_of_f fp r));
         mult0 = f_sub fp (c_one fp) (f_mul fp z z);
         mult = (if f_lt fp (c_zero fp) mult0 then mSqrt fp mult0 else c_zero fp)
     in returnM (Point3F (f_mul fp mult (mSin fp angle)) (f_mul fp mult (mCos fp angle)) z)))"

definition writeVector ::
  "FPU \<Rightarrow> Point3F \<Rightarrow> F32 \<Rightarrow> F32 \<Rightarrow> int \<Rightarrow> int \<Rightarrow> int \<Rightarrow> unit M" where
  "writeVector fp vec minMag maxMag magBits angleBits zBits =
     (let mag = Point3F_len fp vec in
      bindM (writeFlag (f_lt fp minMag mag)) (\<lambda>f1.
        if f1 then
          bindM (bindM (writeFlag (f_lt fp mag maxMag)) (\<lambda>f2.
                   if f2 then writeFloat fp (f_div fp mag maxMag) magBits
                   else bindM (write_F32 mag) (\<lambda>_. returnM ()))) (\<lambda>_.
          let k = f_div fp (c_one fp) mag;
              vec' = Point3F (f_mul fp (px vec) k) (f_mul fp (py vec) k) (f_mul fp (pz vec) k)
          in writeNormalVector2 fp vec' angleBits zBits)
        else returnM ()))"

definition readVector ::
  "FPU \<Rightarrow> F32 \<Rightarrow> F32 \<Rightarrow> F32 \<Rightarrow> int \<Rightarrow> int \<Rightarrow> int \<Rightarrow> Point3F M" where
  "readVector fp mag0 minMag maxMag magBits angleBits zBits =
     bindM readFlag (\<lambda>f1.
       if f1 then
         bindM (bindM readFlag (\<lambda>f2.
                  if f2 then bindM (readFloat fp magBits) (\<lambda>r. returnM (f_mul fp r maxMag))
                  else read_F32 mag0)) (\<lambda>mag.
         bindM (readNormalVector2 fp angleBits zBits) (\<lambda>v.
         returnM (Point3F (f_mul fp (px v) mag) (f_mul fp (py v) mag) (f_mul fp (pz v) mag))))
       else returnM (Point3F (c_zero fp) (c_zero fp) (c_zero fp)))"

text \<open>
  \<open>mathWrite\<close> and \<open>mathRead\<close> of a point come from math/mathIO.h; the spec has the
  translation go out as three raw floats. They are modelled from the spec as three
  typed writes and reads.
\<close>

definition mathWrite :: "Point3F \<Rightarrow> bool M" where
  "mathWrite p =
     bindM (write_F32 (px p)) (\<lambda>_. bindM (write_F32 (py p)) (\<lambda>_. write_F32 (pz p)))"

definition mathRead :: "Point3F \<Rightarrow> Point3F M" where
  "mathRead p =
     bindM (read_F32 (px p)) (\<lambda>a. bindM (read_F32 (py p)) (\<lambda>b. bindM (read_F32 (pz p)) (\<lambda>c.
       returnM (Point3F a b c))))"

definition writeAffineTransform :: "FPU \<Rightarrow> MatrixF \<Rightarrow> unit M" where
  "writeAffineTransform fp matrix =
     (let pos = getColumn3 fp matrix in
      bindM (mathWrite pos) (\<lambda>_.
      case QuatF_normalized fp matrix of (qx, qy, qz, qw) \<Rightarrow>
        bindM (write_F32 qx) (\<lambda>_.
        bindM (write_F32 qy) (\<lambda>_.
        bindM (write_F32 qz) (\<lambda>_.
        bindM (writeFlag (d_lt fp (d_of_f fp qw) (c_zero_d fp))) (\<lambda>_. returnM ()))))))"

definition readAffineTransform :: "FPU \<Rightarrow> Point3F \<Rightarrow> F32 \<times> F32 \<times> F32 \<times> F32 \<Rightarrow> MatrixF M" where
  "readAffineTransform fp pos0 q0 =
     (case q0 of (qx0, qy0, qz0, qw0) \<Rightarrow>
      bindM (mathRead pos0) (\<lambda>pos.
      bindM (read_F32 qx0) (\<lambda>qx.
      bindM (read_F32 qy0) (\<lambda>qy.
      bindM (read_F32 qz0) (\<lambda>qz.
      let sq = f_add fp (f_add fp (f_mul fp qx qx) (f_mul fp qy qy)) (f_mul fp qz qz);
          qw = mSqrt fp (f_of_d fp (d_sub fp (c_one_d fp) (d_of_f fp (getMin fp sq (c_one fp)))))
      in bindM readFlag (\<lambda>f.
         returnM (setMatrix fp (qx, qy, qz, if f then f_neg fp qw else qw) pos)))))))"

subsection \<open>Class ids\<close>

text \<open>
  The tables \<open>NetClassBitSize\<close> and \<open>NetClassCount\<close> belong to \<open>AbstractClassRep\<close>; the
  entries for the class type and group at hand are the parameters \<open>bitSize\<close> and
  \<open>count\<close>.
\<close>

definition writeClassId :: "int \<Rightarrow> U32 \<Rightarrow> unit M" where
  "writeClassId bitSize classId = writeInt classId bitSize"

definition readClassId :: "int \<Rightarrow> int \<Rightarrow> S32 M" where
  "readClassId bitSize count =
     bindM (readInt bitSize) (\<lambda>ret. returnM (if sint ret > count then - 1 else ret))"

subsection \<open>Compressed points\<close>

definition gBitCounts :: "int list" where
  "gBitCounts = [16, 18, 20, 32]"

definition writeCompressedPoint :: "FPU \<Rightarrow> Point3F \<Rightarrow> F32 \<Rightarrow> unit M" where
  "writeCompressedPoint fp p scale s =
     (let invScale = f_div fp (f_of_s32 fp 1) scale;
          vec = Point3F (f_sub fp (px p) (px (mCompressPoint s)))
                        (f_sub fp (py p) (py (mCompressPoint s)))
                        (f_sub fp (pz p) (pz (mCompressPoint s)));
          dist = f_mul fp (Point3F_len fp vec) invScale;
          type' = (if f_lt fp dist (f_of_s32 fp (push_bit 15 1)) then 0
                   else if f_lt fp dist (f_of_s32 fp (push_bit 17 1)) then 1
                   else if f_lt fp dist (f_of_s32 fp (push_bit 19 1)) then 2
                   else 3) :: U32
      in bindM (writeInt type' 2) (\<lambda>_.
           if type' \<noteq> 3 then
             bindM (liftF (ld gBitCounts (uint type'))) (\<lambda>bits.
             bindM (writeSignedInt (f_to_s32 fp (f_mul fp (px vec) invScale)) bits) (\<lambda>_.
             bindM (writeSignedInt (f_to_s32 fp (f_mul fp (py vec) invScale)) bits) (\<lambda>_.
             writeSignedInt (f_to_s32 fp (f_mul fp (pz vec) invScale)) bits)))
           else
             bindM (write_F32 (px p)) (\<lambda>_.
             bindM (write_F32 (py p)) (\<lambda>_.
             bindM (write_F32 (pz p)) (\<lambda>_. returnM ())))) s)"

definition readCompressedPoint :: "FPU \<Rightarrow> Point3F \<Rightarrow> F32 \<Rightarrow> Point3F M" where
  "readCompressedPoint fp p scale =
     bindM (readInt 2) (\<lambda>type'.
       if type' = 3 then
         bindM (read_F32 (px p)) (\<lambda>a.
         bindM (read_F32 (py p)) (\<lambda>b.
         bindM (read_F32 (pz p)) (\<lambda>c.
         returnM (Point3F a b c))))
       else
         bindM (liftF (ld gBitCounts (uint type'))) (\<lambda>bits.
         bindM (readSignedInt bits) (\<lambda>ix.
         bindM (readSignedInt bits) (\<lambda>iy.
         bindM (readSignedInt bits) (\<lambda>iz.
         (\<lambda>s. returnM
                 (Point3F
                    (f_add fp (px (mCompressPoint s)) (f_mul fp (f_of_s32 fp ix) scale))
                    (f_add fp (py (mCompressPoint s)) (f_mul fp (f_of_s32 fp iy) scale))
                    (f_add fp (pz (mCompressPoint s)) (f_mul fp (f_of_s32 fp iz) scale))) s))))))"

subsection \<open>The sticky flag\<close>

text \<open>An operation keeps the error flag if it never returns with a set flag cleared.\<close>

definition keeps_error :: "'a M \<Rightarrow> bool" where
  "keeps_error f \<longleftrightarrow> (\<forall>s r s'. error s \<longrightarrow> f s = Inr (r, s') \<longrightarrow> error s')"

subsection \<open>Bits by absolute index\<close>

text \<open>Bit \<open>g\<close> of a byte region, and bit \<open>k\<close> of the memory seen from a pointer.\<close>

definition bitAt :: "U8 list \<Rightarrow> nat \<Rightarrow> bool" where
  "bitAt m g = bit (m ! (g div 8)) (g mod 8)"

definition srcBit :: "(nat \<Rightarrow> U8) \<Rightarrow> nat \<Rightarrow> bool" where
  "srcBit src k = bit (src (k div 8)) (k mod 8)"

text \<open>The byte that a \<open>writeBits\<close> of \<open>n\<close> bits at cursor \<open>c\<close> leaves at index \<open>j\<close>.\<close>

definition writeBits_byte :: "(nat \<Rightarrow> U8) \<Rightarrow> int \<Rightarrow> int \<Rightarrow> U8 list \<Rightarrow> nat \<Rightarrow> U8" where
  "writeBits_byte src c n m j =
     (let st = c div 8; en = (n + c - 1) div 8; up = nat (c mod 8);
          raw = (if int j = st then push_bit up (src 0) OR (m ! j AND drop_bit (8 - up) 0xFF)
                 else drop_bit (8 - up) (src (nat (int j - st) - 1)) OR push_bit up (src (nat (int j - st))))
      in if int j < st \<or> en < int j then m ! j
         else if int j = en then raw AND drop_bit (nat (7 - (c + n - 1) mod 8)) 0xFF
         else raw)"

subsection \<open>Fields on the wire\<close>

text \<open>
  The definitions from here to the example states are not translated from the code.
  They say what the spec says is on the wire, in bits, and are compared with the code
  below.

  \<open>bitsAt m c k\<close> is the \<open>k\<close> bits of a buffer from absolute bit index \<open>c\<close> on, in
  stream order.
\<close>

definition bitsAt :: "U8 list \<Rightarrow> nat \<Rightarrow> nat \<Rightarrow> bool list" where
  "bitsAt m c k = map (\<lambda>p. bitAt m (c + p)) [0 ..< k]"

text \<open>
  A field on the wire is a list of bits, least significant first: an unsigned field of
  \<open>n\<close> bits, the bits of a run of bytes, and the sign-and-magnitude field of a signed
  integer (the sign flag, then \<open>n - 1\<close> bits of the magnitude). \<open>signMagnitude n v\<close> is
  the value such a field gives back.
\<close>

definition word_of_bits :: "bool list \<Rightarrow> 32 word" where
  "word_of_bits bs = horner_sum of_bool 2 bs"

definition intField :: "nat \<Rightarrow> 32 word \<Rightarrow> bool list" where
  "intField n v = map (bit v) [0 ..< n]"

definition bytesField :: "U8 list \<Rightarrow> bool list" where
  "bytesField bytes = concat (map (\<lambda>b. map (bit b) [0 ..< 8]) bytes)"

definition signedField :: "nat \<Rightarrow> S32 \<Rightarrow> bool list" where
  "signedField n v = (sint v < 0) # intField (n - 1) (if sint v < 0 then - v else v)"

definition signMagnitude :: "nat \<Rightarrow> S32 \<Rightarrow> S32" where
  "signMagnitude n v =
     (if sint v < 0 then - take_bit (n - 1) (- v) else take_bit (n - 1) v)"

text \<open>
  A writer lays out the bits \<open>bs\<close> and returns \<open>r\<close> if, on every stream with room for
  them (under the write ceiling, itself an \<open>S32\<close>, and inside the buffer), it returns \<open>r\<close>
  with the cursor moved past \<open>bs\<close>, the bits \<open>bs\<close> in the buffer from the old cursor on,
  every bit before the old cursor as it was, and nothing else of the stream changed.
  A reader consumes \<open>k\<close> bits and returns \<open>F\<close> of them if, on every stream whose
  compression point is \<open>a\<close> and that holds these bits and the byte after them under
  the read ceiling, it returns \<open>F\<close> of the \<open>k\<close> bits at the cursor and moves the cursor
  past them.
\<close>

definition wr_ok :: "'a M \<Rightarrow> bool list \<Rightarrow> 'a \<Rightarrow> bool" where
  "wr_ok W bs r \<longleftrightarrow>
     (\<forall>s c. bitNum s = int c \<longrightarrow> int (c + length bs) \<le> maxWriteBitNum s \<longrightarrow>
            maxWriteBitNum s < 2 ^ 31 \<longrightarrow>
            (c + length bs) div 8 < length (dataPtr s) \<longrightarrow>
        (\<exists>m'. W s = Inr (r, s\<lparr>dataPtr := m', bitNum := int (c + length bs)\<rparr>) \<and>
              length m' = length (dataPtr s) \<and>
              (\<forall>g. g < c \<longrightarrow> bitAt m' g = bitAt (dataPtr s) g) \<and>
              bitsAt m' c (length bs) = bs))"

definition rd_ok :: "Point3F \<Rightarrow> 'a M \<Rightarrow> nat \<Rightarrow> (bool list \<Rightarrow> 'a) \<Rightarrow> bool" where
  "rd_ok a R k F \<longleftrightarrow>
     (\<forall>s c. mCompressPoint s = a \<longrightarrow> bitNum s = int c \<longrightarrow>
            int (c + k) \<le> maxReadBitNum s \<longrightarrow> maxReadBitNum s < 2 ^ 31 \<longrightarrow>
            (c + k) div 8 + 1 < length (dataPtr s) \<longrightarrow>
        R s = Inr (F (bitsAt (dataPtr s) c k), s\<lparr>bitNum := int (c + k)\<rparr>))"

subsection \<open>Strings on the wire, in the spec's words\<close>







subsection \<open>Compressed points on the wire\<close>

text \<open>
  What the compressed-point writer puts on the wire and what the reader gives back:
  the tier from the scaled distance to the compression point, the field width of a
  tier, the scaled component as an integer, the bits themselves, and the decoded
  point. The scaling is the code's: a product with the reciprocal of the scale,
  rounded as the floating-point unit rounds it.
\<close>

definition compressTier :: "FPU \<Rightarrow> Point3F \<Rightarrow> Point3F \<Rightarrow> F32 \<Rightarrow> U32" where
  "compressTier fp a p scale =
     (let vec = Point3F (f_sub fp (px p) (px a)) (f_sub fp (py p) (py a)) (f_sub fp (pz p) (pz a));
          dist = f_mul fp (Point3F_len fp vec) (f_div fp (f_of_s32 fp 1) scale)
      in if f_lt fp dist (f_of_s32 fp (2 ^ 15)) then 0
         else if f_lt fp dist (f_of_s32 fp (2 ^ 17)) then 1
         else if f_lt fp dist (f_of_s32 fp (2 ^ 19)) then 2
         else 3)"

definition tierWidth :: "U32 \<Rightarrow> nat" where
  "tierWidth T = [16, 18, 20] ! unat T"

definition compressComponent :: "FPU \<Rightarrow> F32 \<Rightarrow> F32 \<Rightarrow> F32 \<Rightarrow> S32" where
  "compressComponent fp x ax scale =
     f_to_s32 fp (f_mul fp (f_sub fp x ax) (f_div fp (f_of_s32 fp 1) scale))"

definition compressedWire :: "FPU \<Rightarrow> Point3F \<Rightarrow> Point3F \<Rightarrow> F32 \<Rightarrow> bool list" where
  "compressedWire fp a p scale =
     (let T = compressTier fp a p scale; w = tierWidth T
      in intField 2 T @
         (if T = 3 then intField 32 (px p) @ intField 32 (py p) @ intField 32 (pz p)
          else signedField w (compressComponent fp (px p) (px a) scale) @
               signedField w (compressComponent fp (py p) (py a) scale) @
               signedField w (compressComponent fp (pz p) (pz a) scale)))"

definition decodedPoint :: "FPU \<Rightarrow> Point3F \<Rightarrow> Point3F \<Rightarrow> F32 \<Rightarrow> Point3F" where
  "decodedPoint fp a p scale =
     (let T = compressTier fp a p scale; w = tierWidth T
      in if T = 3 then p
         else Point3F
           (f_add fp (px a) (f_mul fp (f_of_s32 fp (signMagnitude w (compressComponent fp (px p) (px a) scale))) scale))
           (f_add fp (py a) (f_mul fp (f_of_s32 fp (signMagnitude w (compressComponent fp (py p) (py a) scale))) scale))
           (f_add fp (pz a) (f_mul fp (f_of_s32 fp (signMagnitude w (compressComponent fp (pz p) (pz a) scale))) scale)))"

section \<open>Example states\<close>

definition exStream :: "U8 list \<Rightarrow> int \<Rightarrow> BitStream" where
  "exStream buf pos =
     \<lparr>dataPtr = buf, bitNum = pos, bufSize = int (length buf), error = False,
      maxReadBitNum = int (length buf) * 8, maxWriteBitNum = int (length buf) * 8,
      stringBuffer = None, mCompressPoint = Point3F 0 0 0, mMinSpace = 0\<rparr>"

text \<open>
  A stream with a \<open>mMinSpace\<close> of 4 at byte position 1 of a 4-byte block, a processor
  whose tables are in place with every code \<open>n\<close> bits long, and a 256-byte scratch
  buffer holding \<open>helloX\<close>.
\<close>

definition exCompact :: BitStream where
  "exCompact = (exStream [1, 2, 3, 4] 8)\<lparr>mMinSpace := 4\<rparr>"



text \<open>
  A stand-in for the floating-point unit that computes on the bit patterns as integers,
  to run the float operations on concrete inputs.
\<close>

definition exFPU :: FPU where
  "exFPU =
     \<lparr>f_add = (+), f_sub = (-), f_mul = (*), f_div = (div), f_neg = uminus, f_lt = (<),
      f_of_s32 = (\<lambda>v. v), f_to_s32 = (\<lambda>v. v), f_of_d = ucast, d_of_f = ucast,
      d_of_s32 = ucast, d_to_s32 = ucast, d_sub = (-), d_mul = (*), d_div = (div), d_lt = (<),
      c_half = 0, c_one_d = 1, c_zero_d = 0, c_pi = 3, c_half_pi = 1, c_2pi = 6,
      c_zero = 0, c_one = 1, c_minus_one = - 1, c_epsilon = 0,
      mSqrt = (\<lambda>v. v), mAtan = (\<lambda>v w. v), mSin = (\<lambda>v. v), mCos = (\<lambda>v. v), mFabs = (\<lambda>v. v),
      mClampF = (\<lambda>v lo hi. v), getMin = min,
      Point3F_len = (\<lambda>v. px v + py v + pz v),
      getColumn3 = (\<lambda>m. Point3F 0 0 0), QuatF_normalized = (\<lambda>m. (0, 0, 0, 1)),
      setMatrix = (\<lambda>q v. [])\<rparr>"

section \<open>Memory and loop lemmas\<close>

declare buildTables_scan.simps [simp del] buildTables_loop.simps [simp del]
  writeHuffBuffer_count.simps [simp del] writeHuffBuffer_codes.simps [simp del]
  readHuffBuffer_symbols.simps [simp del] writeString_prefix.simps [simp del]

lemma bindF_simps [simp]:
  "bindF (Inl e) g = Inl e" "bindF (Inr a) g = g a"
  by (simp_all add: bindF_def)

lemma ld_Inr_iff: "ld m i = Inr b \<longleftrightarrow> 0 \<le> i \<and> i < int (length m) \<and> b = m ! nat i"
  by (auto simp: ld_def)

lemma ld_ok: "0 \<le> i \<Longrightarrow> i < int (length m) \<Longrightarrow> ld m i = Inr (m ! nat i)"
  by (simp add: ld_def)

lemma sto_ok: "0 \<le> i \<Longrightarrow> i < int (length m) \<Longrightarrow> sto m i v = Inr (m[nat i := v])"
  by (simp add: sto_def)

lemma sto_length: "sto m i v = Inr m' \<Longrightarrow> length m' = length m"
  by (auto simp: sto_def split: if_splits)

declare readBits_loop.simps [simp del] writeBits_loop.simps [simp del]

text \<open>Inside its range a value is not changed by the wrap.\<close>

lemma wrapS32_id: "- (2 ^ 31) \<le> x \<Longrightarrow> x < 2 ^ 31 \<Longrightarrow> wrapS32 x = x"
  by (simp add: wrapS32_def sint_sbintrunc' signed_take_bit_int_eq_self)

lemma wrapU32_id: "0 \<le> x \<Longrightarrow> x < 2 ^ 32 \<Longrightarrow> wrapU32 x = x"
  by (simp add: wrapU32_def uint_word_of_int take_bit_int_eq_self flip: take_bit_eq_mod)

lemma wrapS32_le_self: "0 \<le> x \<Longrightarrow> wrapS32 x \<le> x"
proof (cases "x < 2 ^ 31")
  case True
  then show "0 \<le> x \<Longrightarrow> wrapS32 x \<le> x" by (simp add: wrapS32_id)
next
  case False
  have "sint (word_of_int x :: 32 word) < 2 ^ (LENGTH(32) - 1)" by (rule sint_lt)
  then show ?thesis using False by (simp add: wrapS32_def)
qed

lemma readBits_loop_ok:
  "0 \<le> bc \<Longrightarrow> 0 \<le> i \<Longrightarrow> i + bc < int (length m) \<Longrightarrow> 0 \<le> k \<Longrightarrow> k + bc \<le> int (length dst) \<Longrightarrow>
   curB = m ! nat i \<Longrightarrow> bc < 2 ^ 31 \<Longrightarrow>
   \<exists>dst'. readBits_loop m d u bc i k curB dst = Inr dst' \<and> length dst' = length dst \<and>
     (\<forall>j < length dst. dst' ! j =
        (if k \<le> int j \<and> int j < k + bc
         then drop_bit d (m ! nat (i + (int j - k))) OR push_bit u (m ! nat (i + (int j - k) + 1))
         else dst ! j))"
proof (induction m d u bc i k curB dst rule: readBits_loop.induct)
  case (1 m d u bc i k curB dst)
  show ?case
  proof (cases "bc = 0")
    case True
    then show ?thesis by (subst readBits_loop.simps) auto
  next
    case False
    let ?v = "drop_bit d curB OR push_bit u (m ! nat (i + 1))"
    have l: "ld m (i + 1) = Inr (m ! nat (i + 1))" using 1(2-) False by (intro ld_ok) auto
    have s: "sto dst k ?v = Inr (dst[nat k := ?v])" using 1(2-) False by (intro sto_ok) auto
    have w: "wrapS32 (bc - 1) = bc - 1" using 1(2-) False by (intro wrapS32_id) auto
    have "\<exists>dst'. readBits_loop m d u (bc - 1) (i + 1) (k + 1) (m ! nat (i + 1)) (dst[nat k := ?v]) = Inr dst' \<and>
        length dst' = length (dst[nat k := ?v]) \<and>
        (\<forall>j < length (dst[nat k := ?v]). dst' ! j =
          (if k + 1 \<le> int j \<and> int j < k + 1 + (bc - 1)
           then drop_bit d (m ! nat (i + 1 + (int j - (k + 1)))) OR push_bit u (m ! nat (i + 1 + (int j - (k + 1)) + 1))
           else (dst[nat k := ?v]) ! j))"
      using 1(2-) False by (intro 1(1)[OF False l s, unfolded w]) auto
    then obtain dst' where d: "readBits_loop m d u (bc - 1) (i + 1) (k + 1) (m ! nat (i + 1)) (dst[nat k := ?v]) = Inr dst'"
      "length dst' = length dst"
      "\<And>j. j < length dst \<Longrightarrow> dst' ! j =
          (if k + 1 \<le> int j \<and> int j < k + 1 + (bc - 1)
           then drop_bit d (m ! nat (i + 1 + (int j - (k + 1)))) OR push_bit u (m ! nat (i + 1 + (int j - (k + 1)) + 1))
           else (dst[nat k := ?v]) ! j)"
      by auto
    have e: "readBits_loop m d u bc i k curB dst = Inr dst'"
      using False l s d(1) by (subst readBits_loop.simps) (simp add: w)
    have "dst' ! j = (if k \<le> int j \<and> int j < k + bc
         then drop_bit d (m ! nat (i + (int j - k))) OR push_bit u (m ! nat (i + (int j - k) + 1))
         else dst ! j)" if j: "j < length dst" for j
    proof (cases "int j = k")
      case True
      then have "nat k = j" by simp
      then show ?thesis using d(3)[OF j] True 1(2-) False j by (simp add: \<open>curB = m ! nat i\<close>)
    next
      case F2: False
      then have "nat k \<noteq> j" using 1(5) by auto
      moreover have "i + 1 + (int j - (k + 1)) = i + (int j - k)" by simp
      ultimately show ?thesis using d(3)[OF j] F2 by (auto simp: add.commute)
    qed
    then show ?thesis using e d(2) by blast
  qed
qed

lemma readBits_loop_fault:
  "0 < bc \<Longrightarrow> int (length m) \<le> i + bc \<Longrightarrow> bc < 2 ^ 31 \<Longrightarrow>
   \<exists>e. readBits_loop m d u bc i k curB dst = Inl e"
proof (induction m d u bc i k curB dst rule: readBits_loop.induct)
  case (1 m d u bc i k curB dst)
  have w: "wrapS32 (bc - 1) = bc - 1" using 1(2-) by (intro wrapS32_id) auto
  from 1 show ?case
    by (subst readBits_loop.simps) (auto split: sum.splits simp: ld_Inr_iff w)
qed

lemma readBits_success_iff:
  assumes "0 < n" "0 \<le> bitNum s" "n + bitNum s \<le> maxReadBitNum s" "(n + 7) div 8 \<le> int (length dst)"
    "n + 7 < 2 ^ 31"
  shows "(\<exists>r. readBits n dst s = Inr r) \<longleftrightarrow> bitNum s div 8 + (n + 7) div 8 < int (length (dataPtr s))"
proof -
  have w7: "wrapS32 (n + 7) = n + 7" using assms(1,5) by (intro wrapS32_id) auto
  have "wrapS32 (n + bitNum s) \<le> n + bitNum s" using assms(1,2) by (intro wrapS32_le_self) auto
  then have ck: "\<not> wrapS32 (n + bitNum s) > maxReadBitNum s" using assms(3) by linarith
  show ?thesis
proof (cases "bitNum s div 8 + (n + 7) div 8 < int (length (dataPtr s))")
  case True
  have bc: "0 \<le> (n + 7) div 8" using assms(1) by simp
  have b31: "(n + 7) div 8 < 2 ^ 31" using assms(1,5) by simp
  have st: "0 \<le> bitNum s div 8" using assms(2) by simp
  have l: "ld (dataPtr s) (bitNum s div 8) = Inr (dataPtr s ! nat (bitNum s div 8))"
    using True bc st by (intro ld_ok) auto
  from readBits_loop_ok[OF bc st True _ _ refl b31, of 0 dst "nat (bitNum s mod 8)" "8 - nat (bitNum s mod 8)"] assms(4)
  obtain dst' where "readBits_loop (dataPtr s) (nat (bitNum s mod 8)) (8 - nat (bitNum s mod 8)) ((n + 7) div 8)
      (bitNum s div 8) 0 (dataPtr s ! nat (bitNum s div 8)) dst = Inr dst'" by auto
  then show ?thesis using True assms(1,3) l ck by (auto simp: readBits_def Let_def w7)
next
  case False
  have bc: "0 < (n + 7) div 8" using assms(1) by simp
  have b31: "(n + 7) div 8 < 2 ^ 31" using assms(1,5) by simp
  from readBits_loop_fault[OF bc _ b31, of "dataPtr s" "bitNum s div 8"] False
  have "\<exists>e. readBits_loop (dataPtr s) d u ((n + 7) div 8) (bitNum s div 8) k curB dst = Inl e" for d u k curB
    by auto
  then show ?thesis using False assms(1,3) ck
    by (auto simp: readBits_def Let_def bindF_def w7 split: sum.splits) (metis Inl_Inr_False)
qed
qed

lemma writeBits_loop_ok:
  "0 \<le> i \<Longrightarrow> en < int (length m) \<Longrightarrow> 0 < k \<Longrightarrow> curB = src (k - 1) \<Longrightarrow>
   \<exists>m'. writeBits_loop src u d en k i curB m = Inr m' \<and> length m' = length m \<and>
     (\<forall>j < length m. m' ! j =
        (if i \<le> int j \<and> int j \<le> en
         then drop_bit d (src (k + nat (int j - i) - 1)) OR push_bit u (src (k + nat (int j - i)))
         else m ! j))"
proof (induction src u d en k i curB m rule: writeBits_loop.induct)
  case (1 src u d en k i curB m)
  show ?case
  proof (cases "i \<le> en")
    case False
    then show ?thesis by (subst writeBits_loop.simps) auto
  next
    case True
    let ?v = "drop_bit d curB OR push_bit u (src k)"
    have s: "sto m i ?v = Inr (m[nat i := ?v])" using 1(2-) True by (intro sto_ok) auto
    have "\<exists>m'. writeBits_loop src u d en (Suc k) (i + 1) (src k) (m[nat i := ?v]) = Inr m' \<and>
        length m' = length (m[nat i := ?v]) \<and>
        (\<forall>j < length (m[nat i := ?v]). m' ! j =
          (if i + 1 \<le> int j \<and> int j \<le> en
           then drop_bit d (src (Suc k + nat (int j - (i + 1)) - 1)) OR push_bit u (src (Suc k + nat (int j - (i + 1))))
           else (m[nat i := ?v]) ! j))"
      using 1(2-) True by (intro 1(1)[OF True]) auto
    then obtain m' where d: "writeBits_loop src u d en (Suc k) (i + 1) (src k) (m[nat i := ?v]) = Inr m'"
      "length m' = length m"
      "\<And>j. j < length m \<Longrightarrow> m' ! j =
          (if i + 1 \<le> int j \<and> int j \<le> en
           then drop_bit d (src (Suc k + nat (int j - (i + 1)) - 1)) OR push_bit u (src (Suc k + nat (int j - (i + 1))))
           else (m[nat i := ?v]) ! j)"
      by auto
    have e: "writeBits_loop src u d en k i curB m = Inr m'"
      using True s d(1) by (subst writeBits_loop.simps) simp
    have "m' ! j = (if i \<le> int j \<and> int j \<le> en
         then drop_bit d (src (k + nat (int j - i) - 1)) OR push_bit u (src (k + nat (int j - i)))
         else m ! j)" if j: "j < length m" for j
    proof (cases "int j = i")
      case T2: True
      then have "nat i = j" by simp
      then show ?thesis using d(3)[OF j] T2 1(2-) True j by simp
    next
      case F2: False
      then have ne: "nat i \<noteq> j" using 1(2) by auto
      show ?thesis
      proof (cases "i + 1 \<le> int j \<and> int j \<le> en")
        case T3: True
        define t where "t = nat (int j - (i + 1))"
        have t: "nat (int j - (i + 1)) = t" "nat (int j - i) = Suc t"
          using T3 by (simp_all add: t_def) linarith
        show ?thesis using d(3)[OF j] T3 by (simp add: t)
      next
        case F3: False
        then show ?thesis using d(3)[OF j] F2 ne by auto
      qed
    qed
    then show ?thesis using e d(2) by blast
  qed
qed

lemma writeBits_loop_length:
  "writeBits_loop src u d en k i curB m = Inr m' \<Longrightarrow> length m' = length m"
proof (induction src u d en k i curB m rule: writeBits_loop.induct)
  case (1 src u d en k i curB m)
  show ?case
  proof (cases "i \<le> en")
    case True
    from 1(2) True obtain m1 where s: "sto m i (drop_bit d curB OR push_bit u (src k)) = Inr m1"
      and r: "writeBits_loop src u d en (Suc k) (i + 1) (src k) m1 = Inr m'"
      by (subst (asm) writeBits_loop.simps) (auto simp: bindF_def split: sum.splits)
    from 1(1)[OF True r] sto_length[OF s] show ?thesis by simp
  next
    case False
    with 1(2) show ?thesis by (subst (asm) writeBits_loop.simps) simp
  qed
qed

lemma writeBits_Inr_D:
  assumes "0 < n" "n + bitNum s \<le> maxWriteBitNum s" "writeBits n src s = Inr r"
    "0 \<le> bitNum s" "maxWriteBitNum s < 2 ^ 31"
  shows "0 \<le> bitNum s div 8 \<and> (n + bitNum s - 1) div 8 < int (length (dataPtr s))"
proof -
  have w: "wrapS32 (n + bitNum s) = n + bitNum s" "wrapS32 (n + bitNum s - 1) = n + bitNum s - 1"
    "wrapS32 (bitNum s + n - 1) = bitNum s + n - 1" "wrapS32 (bitNum s + n) = bitNum s + n"
    using assms(1,2,4,5) by (auto intro!: wrapS32_id)
  from assms(1-3) obtain b0 m1 m2 be where
    l0: "ld (dataPtr s) (bitNum s div 8) = Inr b0"
    and s0: "sto (dataPtr s) (bitNum s div 8)
           (push_bit (nat (bitNum s mod 8)) (src 0) OR (b0 AND drop_bit (8 - nat (bitNum s mod 8)) 0xFF)) = Inr m1"
    and lp: "writeBits_loop src (nat (bitNum s mod 8)) (8 - nat (bitNum s mod 8)) ((n + bitNum s - 1) div 8) 1
           (bitNum s div 8 + 1) (src 0) m1 = Inr m2"
    and l2: "ld m2 ((n + bitNum s - 1) div 8) = Inr be"
    by (auto simp: writeBits_def Let_def bindF_def w split: sum.splits if_splits)
  from l2 have "(n + bitNum s - 1) div 8 < int (length m2)" by (simp add: ld_Inr_iff)
  with writeBits_loop_length[OF lp] sto_length[OF s0] l0 show ?thesis
    by (simp add: ld_Inr_iff)
qed
lemma writeBits_ok:
  assumes "0 < n" "0 \<le> bitNum s" "n + bitNum s \<le> maxWriteBitNum s"
    "(n + bitNum s - 1) div 8 < int (length (dataPtr s))" "maxWriteBitNum s < 2 ^ 31"
  shows "\<exists>m'. writeBits n src s = Inr ((), s\<lparr>dataPtr := m', bitNum := bitNum s + n\<rparr>) \<and>
           length m' = length (dataPtr s) \<and>
           (\<forall>j < length (dataPtr s). m' ! j = writeBits_byte src (bitNum s) n (dataPtr s) j)"
proof -
  define c where "c = bitNum s"
  define m where "m = dataPtr s"
  define st where "st = c div 8"
  define en where "en = (n + c - 1) div 8"
  define up where "up = nat (c mod 8)"
  define v0 where "v0 = push_bit up (src 0) OR (m ! nat st AND drop_bit (8 - up) 0xFF)"
  define lm :: U8 where "lm = drop_bit (nat (7 - (c + n - 1) mod 8)) 0xFF"
  have wr: "wrapS32 (n + c) = n + c" "wrapS32 (n + c - 1) = n + c - 1"
    "wrapS32 (c + n - 1) = c + n - 1" "wrapS32 (c + n) = c + n"
    using assms(1,2,3,5) by (auto intro!: wrapS32_id simp: c_def)
  have st0: "0 \<le> st" using assms(2) by (simp add: st_def c_def)
  have sten: "st \<le> en" unfolding st_def en_def using assms(1) by (intro zdiv_mono1) auto
  have enl: "en < int (length m)" using assms(4) by (simp add: en_def c_def m_def)
  have l0: "ld m st = Inr (m ! nat st)" using st0 sten enl by (intro ld_ok) auto
  have s0: "sto m st v0 = Inr (m[nat st := v0])" using st0 sten enl by (intro sto_ok) auto
  from writeBits_loop_ok[of "st + 1" en "m[nat st := v0]" 1 "src 0" src up "8 - up"] st0 enl
  obtain m2 where m2: "writeBits_loop src up (8 - up) en 1 (st + 1) (src 0) (m[nat st := v0]) = Inr m2"
    "length m2 = length m"
    "\<And>j. j < length m \<Longrightarrow> m2 ! j = (if st + 1 \<le> int j \<and> int j \<le> en
         then drop_bit (8 - up) (src (1 + nat (int j - (st + 1)) - 1)) OR push_bit up (src (1 + nat (int j - (st + 1))))
         else (m[nat st := v0]) ! j)"
    by auto
  have l2: "ld m2 en = Inr (m2 ! nat en)" using st0 sten enl m2(2) by (intro ld_ok) auto
  have s2: "sto m2 en (m2 ! nat en AND lm) = Inr (m2[nat en := m2 ! nat en AND lm])"
    using st0 sten enl m2(2) by (intro sto_ok) auto
  let ?m3 = "m2[nat en := m2 ! nat en AND lm]"
  have en2: "(c + n - 1) div 8 = en" by (simp add: en_def add.commute)
  have w: "writeBits n src s = Inr ((), s\<lparr>dataPtr := ?m3, bitNum := bitNum s + n\<rparr>)"
    using assms(1,3) l0 s0 m2(1) l2 s2
    by (simp add: writeBits_def Let_def c_def[symmetric] wr m_def[symmetric] st_def[symmetric]
        en_def[symmetric] en2 up_def[symmetric] v0_def[symmetric] lm_def[symmetric])
  have "?m3 ! j = writeBits_byte src c n m j" if j: "j < length m" for j
  proof -
    have a: "1 + nat (int j - (st + 1)) = nat (int j - st)" if "st + 1 \<le> int j" using that by linarith
    have m2j: "m2 ! j = (if int j = st then v0
        else if st + 1 \<le> int j \<and> int j \<le> en
          then drop_bit (8 - up) (src (nat (int j - st) - 1)) OR push_bit up (src (nat (int j - st)))
          else m ! j)"
      using m2(3)[OF j] st0 j a by (auto simp: nth_list_update)
    show ?thesis
    proof (cases "int j = en")
      case True
      then have "nat en = j" by simp
      then show ?thesis using m2j j m2(2) True sten
        by (auto simp: writeBits_byte_def Let_def st_def[symmetric] en_def[symmetric] up_def[symmetric]
            v0_def lm_def)
    next
      case False
      then have "nat en \<noteq> j" using st0 sten by auto
      then show ?thesis using m2j j m2(2) False sten
        by (auto simp: writeBits_byte_def Let_def st_def[symmetric] en_def[symmetric] up_def[symmetric]
            v0_def lm_def)
    qed
  qed
  then show ?thesis using w m2(2) by (auto simp: c_def m_def)
qed

lemma bit_FF_int: "bit (0xFF::int) b \<longleftrightarrow> b < 8"
proof -
  have e: "(0xFF::int) = mask 8" by (simp add: mask_eq_exp_minus_1)
  show ?thesis unfolding e by (auto simp: bit_simps)
qed

lemma bit_U8_ge: "8 \<le> b \<Longrightarrow> \<not> bit (w::U8) b"
  by (auto dest: bit_imp_le_length)

lemma first_byte_bit:
  "b < 8 \<Longrightarrow> up < 8 \<Longrightarrow>
   bit (push_bit up (x::U8) OR (y AND drop_bit (8 - up) 0xFF)) b =
     (if b < up then bit y b else bit x (b - up))"
  by (auto simp: bit_simps bit_FF_int)

lemma mid_byte_bit:
  "b < 8 \<Longrightarrow> up < 8 \<Longrightarrow>
   bit (drop_bit (8 - up) (x::U8) OR push_bit up y) b =
     (if b < up then bit x (8 - up + b) else bit y (b - up))"
  by (auto simp: bit_simps bit_FF_int bit_U8_ge)

lemma last_mask_bit:
  "b < 8 \<Longrightarrow> e < 8 \<Longrightarrow> bit ((x::U8) AND drop_bit (7 - e) 0xFF) b = (bit x b \<and> b \<le> e)"
  by (auto simp: bit_simps bit_FF_int)

lemma same_div_mod_le_int: "(a::int) \<le> b \<Longrightarrow> a div 8 = b div 8 \<Longrightarrow> a mod 8 \<le> b mod 8"
  by (metis add_le_cancel_left mult_div_mod_eq)

lemma writeBits_byte_last:
  assumes "0 < n" "0 \<le> c" "int j = (c + n - 1) div 8" "(c + n - 1) mod 8 < int b"
  shows "\<not> bit (writeBits_byte src c n m j) b"
proof (cases "b < 8")
  case False
  then show ?thesis by (simp add: bit_U8_ge)
next
  case True
  have e: "nat ((c + n - 1) mod 8) < 8" by simp
  have st: "c div 8 \<le> (c + n - 1) div 8" using assms(1) by (intro zdiv_mono1) auto
  have "7 - (c + n - 1) mod 8 = int (7 - nat ((c + n - 1) mod 8))" by simp
  then have n7: "nat (7 - (c + n - 1) mod 8) = 7 - nat ((c + n - 1) mod 8)" by simp
  show ?thesis using assms st True
    by (auto simp: writeBits_byte_def Let_def add.commute n7 last_mask_bit[OF True e])
qed

lemma writeBits_byte_first:
  assumes "0 < n" "0 \<le> c" "int j = c div 8" "int b < c mod 8"
  shows "bit (writeBits_byte src c n m j) b = bit (m ! j) b"
proof -
  have "c mod 8 < 8" by simp
  with assms(4) have b8: "b < 8" by linarith
  have up: "nat (c mod 8) < 8" by simp
  have bu: "b < nat (c mod 8)" using assms(4) by simp
  have e: "nat ((c + n - 1) mod 8) < 8" by simp
  have st: "c div 8 \<le> (c + n - 1) div 8" using assms(1) by (intro zdiv_mono1) auto
  have "7 - (c + n - 1) mod 8 = int (7 - nat ((c + n - 1) mod 8))" by simp
  then have n7: "nat (7 - (c + n - 1) mod 8) = 7 - nat ((c + n - 1) mod 8)" by simp
  have le: "b \<le> nat ((c + n - 1) mod 8)" if "c div 8 = (c + n - 1) div 8"
    using same_div_mod_le_int[of c "c + n - 1"] that assms(1,4) by simp
  show ?thesis using assms st le
    by (auto simp: writeBits_byte_def Let_def add.commute n7 last_mask_bit[OF b8 e]
        first_byte_bit[OF b8 up] bu)
qed

lemma writeBits_byte_outside:
  "int j < c div 8 \<or> (c + n - 1) div 8 < int j \<Longrightarrow> writeBits_byte src c n m j = m ! j"
  by (auto simp: writeBits_byte_def Let_def add.commute)

lemma divmod8: "(x::nat) = 8 * q + r \<Longrightarrow> r < 8 \<Longrightarrow> x div 8 = q \<and> x mod 8 = r"
  by auto

lemma writeBits_byte_nat:
  "writeBits_byte src (int cn) (int nn) m j =
     (let st = cn div 8; en = (cn + nn - 1) div 8; up = cn mod 8;
          raw = (if j = st then push_bit up (src 0) OR (m ! j AND drop_bit (8 - up) 0xFF)
                 else drop_bit (8 - up) (src (j - st - 1)) OR push_bit up (src (j - st)))
      in if j < st \<or> en < j then m ! j
         else if j = en then raw AND drop_bit (7 - (cn + nn - 1) mod 8) 0xFF
         else raw)" if "0 < nn"
proof -
  have a: "int cn div 8 = int (cn div 8)" "int cn mod 8 = int (cn mod 8)" by (simp_all add: zdiv_int zmod_int)
  have l: "int cn + int nn - 1 = int (cn + nn - 1)" "int nn + int cn - 1 = int (cn + nn - 1)" using that by auto
  have b: "int (cn + nn - 1) div 8 = int ((cn + nn - 1) div 8)" "int (cn + nn - 1) mod 8 = int ((cn + nn - 1) mod 8)"
    by (simp_all add: zdiv_int zmod_int)
  have c: "nat (int j - int (cn div 8)) = j - cn div 8" by simp
  have d: "nat (7 - int ((cn + nn - 1) mod 8)) = 7 - (cn + nn - 1) mod 8" by simp
  show ?thesis
    unfolding writeBits_byte_def Let_def a l b c d nat_int of_nat_eq_iff of_nat_less_iff ..
qed

lemma writeBits_byte_bit_nat:
  assumes "0 < nn" "b < 8"
  shows "bit (writeBits_byte src (int cn) (int nn) m j) b =
     (let g = 8 * j + b in
      if g < cn then bit (m ! j) b
      else if g < cn + nn then srcBit src (g - cn)
      else if j = (cn + nn - 1) div 8 then False
      else bit (m ! j) b)"
proof -
  define st where "st = cn div 8"
  define up where "up = cn mod 8"
  define L where "L = cn + nn - 1"
  define en where "en = L div 8"
  define e where "e = L mod 8"
  define g where "g = 8 * j + b"
  have cn: "cn = 8 * st + up" "up < 8" by (simp_all add: st_def up_def)
  have L: "L = 8 * en + e" "e < 8" by (simp_all add: en_def e_def)
  have Ln: "L + 1 = cn + nn" using assms(1) by (simp add: L_def)
  have sten: "st \<le> en" unfolding st_def en_def L_def using assms(1) by (intro div_le_mono) simp
  have wb: "writeBits_byte src (int cn) (int nn) m j =
     (if j < st \<or> en < j then m ! j
      else if j = en then
         (if j = st then push_bit up (src 0) OR (m ! j AND drop_bit (8 - up) 0xFF)
          else drop_bit (8 - up) (src (j - st - 1)) OR push_bit up (src (j - st))) AND drop_bit (7 - e) 0xFF
      else (if j = st then push_bit up (src 0) OR (m ! j AND drop_bit (8 - up) 0xFF)
          else drop_bit (8 - up) (src (j - st - 1)) OR push_bit up (src (j - st))))"
    unfolding writeBits_byte_nat[OF assms(1)] Let_def st_def up_def en_def e_def L_def ..
  have goal: "bit (writeBits_byte src (int cn) (int nn) m j) b =
     (if g < cn then bit (m ! j) b
      else if g \<le> L then srcBit src (g - cn)
      else if j = en then False
      else bit (m ! j) b)"
  proof -
    consider (lo) "j < st" | (hi) "en < j" | (first) "j = st" | (mid) "st < j" "j \<le> en"
      by linarith
    then show ?thesis
    proof cases
      case lo
      then have "g < cn" using cn assms(2) by (simp add: g_def)
      then show ?thesis unfolding wb using lo by simp
    next
      case hi
      then have "\<not> g < cn" "\<not> g \<le> L" "j \<noteq> en" using cn L sten assms(2) by (simp_all add: g_def)
      then show ?thesis unfolding wb using hi by simp
    next
      case first
      show ?thesis
      proof (cases "b < up")
        case True
        then have gl: "g < cn" using cn first by (simp add: g_def)
        have "b \<le> e" if "st = en" using that True cn L Ln assms(1) by simp
        then show ?thesis unfolding wb using first sten gl True
          by (auto simp: first_byte_bit[OF assms(2) cn(2)] last_mask_bit[OF assms(2) L(2)])
      next
        case False
        then have gl: "\<not> g < cn" and gc: "g - cn = b - up" using cn first by (simp_all add: g_def)
        have sb: "srcBit src (g - cn) = bit (src 0) (b - up)"
          using assms(2) by (simp add: srcBit_def gc)
        have le: "g \<le> L \<longleftrightarrow> b \<le> e" if "st = en" using that cn L first by (simp add: g_def)
        have lt: "g \<le> L" if "st < en" using that cn L first assms(2) by (simp add: g_def)
        show ?thesis unfolding wb using first sten gl False sb le lt
          by (auto simp: first_byte_bit[OF assms(2) cn(2)] last_mask_bit[OF assms(2) L(2)])
      qed
    next
      case mid
      have gl: "\<not> g < cn" using cn mid assms(2) by (simp add: g_def)
      have le: "g \<le> L \<longleftrightarrow> b \<le> e" if "j = en" using that cn L by (simp add: g_def)
      have lt: "g \<le> L" if "j < en" using that cn L assms(2) by (simp add: g_def)
      have sb: "srcBit src (g - cn) = (if b < up then bit (src (j - st - 1)) (8 - up + b) else bit (src (j - st)) (b - up))"
      proof (cases "b < up")
        case True
        have eq: "g - cn = 8 * (j - st - 1) + (8 - up + b)" using cn mid True by (simp add: g_def)
        have r: "8 - up + b < 8" using True cn(2) by simp
        from divmod8[OF eq r] show ?thesis using True by (simp add: srcBit_def)
      next
        case False
        have eq: "g - cn = 8 * (j - st) + (b - up)" using cn mid False by (simp add: g_def)
        have r: "b - up < 8" using assms(2) by simp
        from divmod8[OF eq r] show ?thesis using False by (simp add: srcBit_def)
      qed
      show ?thesis unfolding wb using mid gl le lt sb
        by (auto simp: mid_byte_bit[OF assms(2) cn(2)] last_mask_bit[OF assms(2) L(2)])
    qed
  qed
  have "g \<le> L \<longleftrightarrow> g < cn + nn" using Ln by linarith
  then show ?thesis using goal by (simp add: Let_def g_def en_def L_def)
qed

lemma writeBits_bits:
  assumes "0 < nn" "bitNum s = int cn" "int nn + int cn \<le> maxWriteBitNum s"
    "(cn + nn - 1) div 8 < length (dataPtr s)" "maxWriteBitNum s < 2 ^ 31"
  shows "\<exists>m'. writeBits (int nn) src s = Inr ((), s\<lparr>dataPtr := m', bitNum := int (cn + nn)\<rparr>) \<and>
           length m' = length (dataPtr s) \<and>
           (\<forall>g < 8 * length (dataPtr s). bitAt m' g =
              (if g < cn then bitAt (dataPtr s) g
               else if g < cn + nn then srcBit src (g - cn)
               else if g div 8 = (cn + nn - 1) div 8 then False
               else bitAt (dataPtr s) g))"
proof -
  have n0: "0 < int nn" using assms(1) by simp
  have c0: "0 \<le> bitNum s" using assms(2) by simp
  have le: "int nn + bitNum s \<le> maxWriteBitNum s" using assms(2,3) by simp
  have "int nn + int cn - 1 = int (cn + nn - 1)" using assms(1) by auto
  then have "(int nn + bitNum s - 1) div 8 = int ((cn + nn - 1) div 8)"
    by (simp add: assms(2) zdiv_int)
  then have en: "(int nn + bitNum s - 1) div 8 < int (length (dataPtr s))" using assms(4) by simp
  from writeBits_ok[OF n0 c0 le en assms(5), of src]
  obtain m' where m': "writeBits (int nn) src s = Inr ((), s\<lparr>dataPtr := m', bitNum := bitNum s + int nn\<rparr>)"
    "length m' = length (dataPtr s)"
    "\<And>j. j < length (dataPtr s) \<Longrightarrow> m' ! j = writeBits_byte src (bitNum s) (int nn) (dataPtr s) j"
    by auto
  have "bitAt m' g =
              (if g < cn then bitAt (dataPtr s) g
               else if g < cn + nn then srcBit src (g - cn)
               else if g div 8 = (cn + nn - 1) div 8 then False
               else bitAt (dataPtr s) g)" if g: "g < 8 * length (dataPtr s)" for g
  proof -
    have j: "g div 8 < length (dataPtr s)" using g by auto
    have b: "g mod 8 < 8" by simp
    have gg: "8 * (g div 8) + g mod 8 = g" by simp
    show ?thesis
      unfolding bitAt_def m'(3)[OF j] assms(2) writeBits_byte_bit_nat[OF assms(1) b] Let_def gg ..
  qed
  then show ?thesis using m'(1,2) by (auto simp: assms(2))
qed

lemma writeBits_src_cong:
  assumes "0 < nn" "bitNum s = int cn" "int nn + int cn \<le> maxWriteBitNum s"
    "(cn + nn - 1) div 8 < length (dataPtr s)"
    "\<And>k. k < (nn + 7) div 8 \<Longrightarrow> src k = src' k" "maxWriteBitNum s < 2 ^ 31"
  shows "writeBits (int nn) src s = writeBits (int nn) src' s"
proof -
  from writeBits_bits[OF assms(1-4,6), of src] obtain m1 where
    m1: "writeBits (int nn) src s = Inr ((), s\<lparr>dataPtr := m1, bitNum := int (cn + nn)\<rparr>)"
      "length m1 = length (dataPtr s)"
      "\<And>g. g < 8 * length (dataPtr s) \<Longrightarrow> bitAt m1 g =
              (if g < cn then bitAt (dataPtr s) g
               else if g < cn + nn then srcBit src (g - cn)
               else if g div 8 = (cn + nn - 1) div 8 then False
               else bitAt (dataPtr s) g)" by blast
  from writeBits_bits[OF assms(1-4,6), of src'] obtain m2 where
    m2: "writeBits (int nn) src' s = Inr ((), s\<lparr>dataPtr := m2, bitNum := int (cn + nn)\<rparr>)"
      "length m2 = length (dataPtr s)"
      "\<And>g. g < 8 * length (dataPtr s) \<Longrightarrow> bitAt m2 g =
              (if g < cn then bitAt (dataPtr s) g
               else if g < cn + nn then srcBit src' (g - cn)
               else if g div 8 = (cn + nn - 1) div 8 then False
               else bitAt (dataPtr s) g)" by blast
  have sb: "srcBit src p = srcBit src' p" if "p < nn" for p
  proof -
    have "p div 8 < (nn + 7) div 8" using that by auto
    then show ?thesis by (simp add: srcBit_def assms(5))
  qed
  have "m1 ! j = m2 ! j" if j: "j < length (dataPtr s)" for j
  proof (rule bit_eqI)
    fix b assume "possible_bit TYPE(U8) b"
    then have b: "b < 8" by (simp add: possible_bit_word)
    then have g: "8 * j + b < 8 * length (dataPtr s)" using j by simp
    have dm: "(8 * j + b) div 8 = j" "(8 * j + b) mod 8 = b" using b by simp_all
    from m1(3)[OF g] m2(3)[OF g] sb[of "8 * j + b - cn"]
    have "bitAt m1 (8 * j + b) = bitAt m2 (8 * j + b)" by auto
    then show "bit (m1 ! j) b = bit (m2 ! j) b" unfolding bitAt_def dm .
  qed
  then have "m1 = m2" using m1(2) m2(2) by (intro nth_equalityI) simp_all
  then show ?thesis using m1(1) m2(1) by simp
qed

lemma read_byte_bit:
  "b < 8 \<Longrightarrow> d < 8 \<Longrightarrow>
   bit (drop_bit d (x::U8) OR push_bit (8 - d) y) b =
     (if d + b < 8 then bit x (d + b) else bit y (d + b - 8))"
  by (auto simp: bit_simps bit_U8_ge add.commute)

lemma readBits_bits:
  assumes "0 < nn" "bitNum s = int cn" "int nn + int cn \<le> maxReadBitNum s"
    "cn div 8 + (nn + 7) div 8 < length (dataPtr s)" "(nn + 7) div 8 \<le> length dst"
    "maxReadBitNum s < 2 ^ 31" "int nn + 7 < 2 ^ 31"
  shows "\<exists>dst'. readBits (int nn) dst s = Inr (dst', s\<lparr>bitNum := int (cn + nn)\<rparr>) \<and>
           length dst' = length dst \<and>
           (\<forall>k < length dst. \<forall>b < 8. bit (dst' ! k) b =
              (if k < (nn + 7) div 8 then bitAt (dataPtr s) (cn + 8 * k + b) else bit (dst ! k) b))"
proof -
  define m where "m = dataPtr s"
  define st where "st = cn div 8"
  define d where "d = cn mod 8"
  define bc where "bc = (nn + 7) div 8"
  have cn: "cn = 8 * st + d" "d < 8" by (simp_all add: st_def d_def)
  have "int cn mod 8 = int (cn mod 8)" by (simp add: zmod_int)
  then have "nat (int cn mod 8) = cn mod 8" by (simp only: nat_int)
  moreover have "int nn + 7 = int (nn + 7)" by simp
  then have "(int nn + 7) div 8 = int ((nn + 7) div 8)" by (simp only: zdiv_int of_nat_numeral)
  ultimately have a: "int cn div 8 = int st" "nat (int cn mod 8) = d" "(int nn + 7) div 8 = int bc"
    by (simp_all add: st_def d_def bc_def zdiv_int)
  have l: "ld m (int st) = Inr (m ! st)"
    using assms(4) by (simp add: ld_def m_def st_def)
  have wr: "wrapS32 (int nn + int cn) = int nn + int cn" "wrapS32 (int nn + 7) = int nn + 7"
    "wrapS32 (int cn + int nn) = int cn + int nn"
    using assms(1,3,6,7) by (auto intro!: wrapS32_id)
  have b31: "int bc < 2 ^ 31" using assms(7) a(3) by simp
  from readBits_loop_ok[of "int bc" "int st" m 0 dst "m ! st" d "8 - d"] assms(4,5) b31
  obtain dst' where dst': "readBits_loop m d (8 - d) (int bc) (int st) 0 (m ! st) dst = Inr dst'"
    "length dst' = length dst"
    "\<And>j. j < length dst \<Longrightarrow> dst' ! j = (if 0 \<le> int j \<and> int j < 0 + int bc
         then drop_bit d (m ! nat (int st + (int j - 0))) OR push_bit (8 - d) (m ! nat (int st + (int j - 0) + 1))
         else dst ! j)"
    by (auto simp: m_def st_def bc_def)
  have r: "readBits (int nn) dst s = Inr (dst', s\<lparr>bitNum := int (cn + nn)\<rparr>)"
    using assms(1,3) l dst'(1)
    by (simp add: readBits_def Let_def wr a m_def[symmetric] assms(2))
  have "bit (dst' ! k) b = (if k < bc then bitAt m (cn + 8 * k + b) else bit (dst ! k) b)"
    if k: "k < length dst" and b: "b < 8" for k b
  proof (cases "k < bc")
    case False
    then show ?thesis using dst'(3)[OF k] by simp
  next
    case True
    have n1: "nat (int st + (int k - 0)) = st + k" "nat (int st + (int k - 0) + 1) = st + k + 1" by simp_all
    have e: "dst' ! k = drop_bit d (m ! (st + k)) OR push_bit (8 - d) (m ! (st + k + 1))"
      using dst'(3)[OF k] True unfolding n1 by simp
    show ?thesis
    proof (cases "d + b < 8")
      case T: True
      have "cn + 8 * k + b = 8 * (st + k) + (d + b)" using cn by simp
      from divmod8[OF this T] show ?thesis using True T by (simp add: e read_byte_bit[OF b cn(2)] bitAt_def)
    next
      case F: False
      have eq: "cn + 8 * k + b = 8 * (st + k + 1) + (d + b - 8)" using cn F by simp
      have "d + b - 8 < 8" using b cn(2) by simp
      from divmod8[OF eq this] show ?thesis using True F by (simp add: e read_byte_bit[OF b cn(2)] bitAt_def)
    qed
  qed
  then show ?thesis using r dst'(2) by (auto simp: m_def bc_def)
qed

lemma bit_le_bytes: "bit (le_bytes v k) b \<longleftrightarrow> b < 8 \<and> bit v (8 * k + b)"
  by (auto simp: le_bytes_def bit_simps)

lemma srcBit_le_bytes: "srcBit (le_bytes v) p = bit v p"
  by (simp add: srcBit_def bit_le_bytes)

lemma bit_word_of_bytes:
  "bit (word_of_bytes d) p \<longleftrightarrow> p < 32 \<and> bit (d ! (p div 8)) (p mod 8)"
proof (cases "p < 32")
  case False
  then show ?thesis by (auto dest: bit_imp_le_length)
next
  case True
  define q where "q = p div 8"
  define r where "r = p mod 8"
  have p: "p = 8 * q + r" "r < 8" by (simp_all add: q_def r_def)
  with True have "q < 4" by simp
  then consider "q = 0" | "q = 1" | "q = 2" | "q = 3" by linarith
  then have "bit (word_of_bytes d) (8 * q + r) \<longleftrightarrow> bit (d ! q) r"
    using p(2) by cases (auto simp: word_of_bytes_def bit_simps dest: bit_imp_le_length)
  then show ?thesis using True by (simp add: p(1)[symmetric] q_def r_def)
qed

lemma bindM_Inr [simp]: "f s = Inr (a, s') \<Longrightarrow> bindM f g s = g a s'"
  by (simp add: bindM_def)

lemma bindM_Inl [simp]: "f s = Inl e \<Longrightarrow> bindM f g s = Inl e"
  by (simp add: bindM_def)

lemma readInt_bits:
  assumes "0 < nn" "nn \<le> 32" "bitNum s = int cn" "int nn + int cn \<le> maxReadBitNum s"
    "cn div 8 + (nn + 7) div 8 < length (dataPtr s)" "maxReadBitNum s < 2 ^ 31"
  shows "\<exists>r. readInt (int nn) s = Inr (r, s\<lparr>bitNum := int (cn + nn)\<rparr>) \<and>
           (\<forall>p. bit r p \<longleftrightarrow> p < nn \<and> bitAt (dataPtr s) (cn + p))"
proof -
  have bc: "(nn + 7) div 8 \<le> length [0::U8, 0, 0, 0]" using assms(2) by simp
  have n7: "int nn + 7 < 2 ^ 31" using assms(2) by simp
  from readBits_bits[OF assms(1,3,4,5) bc assms(6) n7]
  obtain d where d: "readBits (int nn) [0, 0, 0, 0] s = Inr (d, s\<lparr>bitNum := int (cn + nn)\<rparr>)"
    "length d = 4"
    "\<And>k b. k < 4 \<Longrightarrow> b < 8 \<Longrightarrow> bit (d ! k) b =
        (if k < (nn + 7) div 8 then bitAt (dataPtr s) (cn + 8 * k + b) else bit ([0::U8, 0, 0, 0] ! k) b)"
    by auto
  have z: "\<not> bit ([0::U8, 0, 0, 0] ! k) b" if "k < 4" for k b
    using that by (cases k rule: nat.exhaust; simp add: nth_Cons split: nat.splits)
  have w: "bit (word_of_bytes d) p \<longleftrightarrow> p < 32 \<and> p div 8 < (nn + 7) div 8 \<and> bitAt (dataPtr s) (cn + p)" for p
  proof (cases "p < 32")
    case True
    then have k: "p div 8 < 4" by simp
    have b: "p mod 8 < 8" by simp
    have e: "cn + 8 * (p div 8) + p mod 8 = cn + p" by simp
    show ?thesis using d(3)[OF k b, unfolded e] z[OF k] True by (simp add: bit_word_of_bytes)
  next
    case False
    then show ?thesis by (simp add: bit_word_of_bytes)
  qed
  have mk: "(2 ^ nn - 1 :: 32 word) = mask nn" by (simp add: mask_eq_exp_minus_1)
  define r where "r = (if int nn = 32 then word_of_bytes d else word_of_bytes d AND (push_bit (nat (int nn)) 1 - 1))"
  have ri: "readInt (int nn) s = Inr (r, s\<lparr>bitNum := int (cn + nn)\<rparr>)"
    using d(1) by (simp add: readInt_def returnM_def r_def Let_def)
  have "bit r p \<longleftrightarrow> p < nn \<and> bitAt (dataPtr s) (cn + p)" for p
  proof (cases "nn = 32")
    case True
    then show ?thesis by (auto simp: r_def w)
  next
    case False
    have "p div 8 < (nn + 7) div 8" if "p < nn" using that by auto
    then show ?thesis using False assms(2) by (auto simp: r_def w mk bit_simps)
  qed
  then show ?thesis using ri by blast
qed

lemma setbit_bit: "k < 8 \<Longrightarrow> up < 8 \<Longrightarrow> bit ((b::U8) OR 2 ^ up) k \<longleftrightarrow> bit b k \<or> k = up"
  by (auto simp: bit_simps)

lemma clrbit_bit: "k < 8 \<Longrightarrow> up < 8 \<Longrightarrow> bit ((b::U8) AND NOT (2 ^ up)) k \<longleftrightarrow> bit b k \<and> k \<noteq> up"
  by (auto simp: bit_simps)

lemma writeFlag_bits:
  assumes "bitNum s = int cn" "int cn + 1 \<le> maxWriteBitNum s" "cn div 8 < length (dataPtr s)"
    "maxWriteBitNum s < 2 ^ 31"
  shows "\<exists>m'. writeFlag v s = Inr (v, s\<lparr>dataPtr := m', bitNum := int (cn + 1)\<rparr>) \<and>
           length m' = length (dataPtr s) \<and>
           (\<forall>g < 8 * length (dataPtr s). bitAt m' g = (if g = cn then v else bitAt (dataPtr s) g))"
proof -
  define m where "m = dataPtr s"
  define st where "st = cn div 8"
  define up where "up = cn mod 8"
  define nb where "nb = (if v then m ! st OR push_bit up 1 else m ! st AND NOT (push_bit up 1))"
  have cn: "cn = 8 * st + up" "up < 8" by (simp_all add: st_def up_def)
  have "int cn mod 8 = int (cn mod 8)" by (simp add: zmod_int)
  then have a: "int cn div 8 = int st" "nat (int cn mod 8) = up"
    by (simp_all add: st_def up_def zdiv_int)
  have stl: "st < length m" using assms(3) by (simp add: st_def m_def)
  have l: "ld m (int st) = Inr (m ! st)" using stl by (simp add: ld_def)
  have s: "sto m (int st) x = Inr (m[st := x])" for x using stl by (simp add: sto_def)
  have wr: "wrapS32 (int cn + 1) = int cn + 1" using assms(2,4) by (intro wrapS32_id) auto
  have w: "writeFlag v s = Inr (v, s\<lparr>dataPtr := m[st := nb], bitNum := int (cn + 1)\<rparr>)"
    unfolding writeFlag_def assms(1) wr a m_def[symmetric] using assms(2) l s
    by (simp add: nb_def)
  have "bitAt (m[st := nb]) g = (if g = cn then v else bitAt m g)" if "g < 8 * length m" for g
  proof (cases "g div 8 = st")
    case False
    then have "g \<noteq> cn" by (auto simp: st_def)
    then show ?thesis using False by (simp add: bitAt_def)
  next
    case True
    have k: "g mod 8 < 8" by simp
    have "g = cn \<longleftrightarrow> g mod 8 = up" using True cn by (metis div_mult_mod_eq mult.commute st_def up_def)
    then show ?thesis using True stl
      by (auto simp: bitAt_def nb_def up_def setbit_bit clrbit_bit)
  qed
  then show ?thesis using w by (auto simp: m_def)
qed

lemma readFlag_bits:
  assumes "bitNum s = int cn" "int cn + 1 \<le> maxReadBitNum s" "cn div 8 < length (dataPtr s)"
    "maxReadBitNum s < 2 ^ 31"
  shows "readFlag s = Inr (bitAt (dataPtr s) cn, s\<lparr>bitNum := int (cn + 1)\<rparr>)"
proof -
  have wr: "wrapS32 (int cn + 1) = int cn + 1" using assms(2,4) by (intro wrapS32_id) auto
  have "int cn mod 8 = int (cn mod 8)" by (simp add: zmod_int)
  then have a: "int cn div 8 = int (cn div 8)" "nat (int cn mod 8) = cn mod 8"
    by (simp_all add: zdiv_int)
  show ?thesis using assms(1-3) by (simp add: readFlag_def ld_def wr a bitAt_def)
qed

lemma sint_word_of_int_32:
  "- (2 ^ 31) \<le> v \<Longrightarrow> v < 2 ^ 31 \<Longrightarrow> sint (word_of_int v :: 32 word) = v"
  by (simp add: sint_sbintrunc' signed_take_bit_int_eq_self)

lemma bit_small_int: "0 \<le> a \<Longrightarrow> a < 2 ^ k \<Longrightarrow> bit (a::int) p \<Longrightarrow> p < k"
  by (metis bit_take_bit_iff take_bit_int_eq_self)

lemma div8_add_le: "(a + b) div 8 \<le> a div 8 + b div 8 + (1::nat)"
proof -
  have "a mod 8 < 8" "b mod 8 < 8" by simp_all
  then have "a mod 8 + b mod 8 < 2 * 8" by linarith
  then have "(a mod 8 + b mod 8) div 8 < 2" by (simp only: div_less_iff_less_mult zero_less_numeral)
  moreover have "(a + b) div 8 = a div 8 + b div 8 + (a mod 8 + b mod 8) div 8" by (rule div_add1_eq)
  ultimately show ?thesis by linarith
qed

lemma signed_span_le: fixes n :: nat assumes "1 < n" shows "(c + 1 + (n - 1) - 1) div 8 \<le> (c + 1) div 8 + (n + 6) div 8"
proof -
  have e: "c + 1 + (n - 1) - 1 = (c + 1) + (n - 2)" "n + 6 = (n - 2) + 8" using assms by simp_all
  have "(n - 2 + 8) div 8 = (n - 2) div 8 + 1" by simp
  then show ?thesis unfolding e using div8_add_le[of "c + 1" "n - 2"] by simp
qed

lemma signedInt_roundtrip_nat:
  fixes n c :: nat and v :: int
  assumes n: "1 < n" "n \<le> 32" and v: "- (2 ^ (n - 1)) < v" "v < 2 ^ (n - 1)"
    and c: "bitNum s = int c"
    and mw: "int c + int n \<le> maxWriteBitNum s" and mr: "int c + int n \<le> maxReadBitNum s"
    and len: "(c + 1) div 8 + (n + 6) div 8 < length (dataPtr s)"
    and w31: "maxWriteBitNum s < 2 ^ 31" and r31: "maxReadBitNum s < 2 ^ 31"
  shows "\<exists>m'. writeSignedInt (word_of_int v) (int n) s = Inr ((), s\<lparr>dataPtr := m', bitNum := int (c + n)\<rparr>) \<and>
          length m' = length (dataPtr s) \<and>
          readSignedInt (int n) (s\<lparr>dataPtr := m', bitNum := int c\<rparr>) =
            Inr (word_of_int v, s\<lparr>dataPtr := m', bitNum := int (c + n)\<rparr>)"
proof -
  define w :: "32 word" where "w = word_of_int v"
  define f where "f = (v < 0)"
  define a where "a = \<bar>v\<bar>"
  define mag :: "32 word" where "mag = word_of_int a"
  have p31: "(2::int) ^ (n - 1) \<le> 2 ^ 31" using n by (intro power_increasing) auto
  have sw: "sint w = v" unfolding w_def using v p31 by (intro sint_word_of_int_32) auto
  have fm: "(if f then - w else w) = mag" by (auto simp: f_def mag_def a_def w_def)
  have a: "0 \<le> a" "a < 2 ^ (n - 1)" using v by (auto simp: a_def)
  have magbit: "p < n - 1" if "bit mag p" for p
    using that a bit_small_int[of a "n - 1" p] by (simp add: mag_def bit_word_of_int_iff)
  have l1: "c div 8 < length (dataPtr s)"
  proof -
    have "c div 8 \<le> (c + 1) div 8" by (intro div_le_mono) simp
    then show ?thesis using len by linarith
  qed
  have l2: "(c + 1 + (n - 1) - 1) div 8 < length (dataPtr s)"
  proof -
    from signed_span_le[OF n(1), of c] show ?thesis using len by linarith
  qed
  from writeFlag_bits[OF c _ l1 w31, of f] mw n
  obtain mA where mA: "writeFlag f s = Inr (f, s\<lparr>dataPtr := mA, bitNum := int (c + 1)\<rparr>)"
    "length mA = length (dataPtr s)"
    "\<And>g. g < 8 * length (dataPtr s) \<Longrightarrow> bitAt mA g = (if g = c then f else bitAt (dataPtr s) g)"
    by auto
  let ?sA = "s\<lparr>dataPtr := mA, bitNum := int (c + 1)\<rparr>"
  have n1: "0 < n - 1" using n by simp
  have in1: "wrapS32 (int n - 1) = int (n - 1)" using n by (simp add: wrapS32_id)
  have "\<exists>m'. writeBits (int (n - 1)) (le_bytes mag) ?sA =
          Inr ((), ?sA\<lparr>dataPtr := m', bitNum := int (c + 1 + (n - 1))\<rparr>) \<and>
           length m' = length (dataPtr ?sA) \<and>
           (\<forall>g < 8 * length (dataPtr ?sA). bitAt m' g =
              (if g < c + 1 then bitAt (dataPtr ?sA) g
               else if g < c + 1 + (n - 1) then srcBit (le_bytes mag) (g - (c + 1))
               else if g div 8 = (c + 1 + (n - 1) - 1) div 8 then False
               else bitAt (dataPtr ?sA) g))"
    using mw n l2 mA(2) w31 by (intro writeBits_bits[OF n1]) auto
  then obtain mB where mB: "writeBits (int (n - 1)) (le_bytes mag) ?sA =
          Inr ((), s\<lparr>dataPtr := mB, bitNum := int (c + n)\<rparr>)"
    "length mB = length (dataPtr s)"
    "\<And>g. g < 8 * length (dataPtr s) \<Longrightarrow> bitAt mB g =
              (if g < c + 1 then bitAt mA g
               else if g < c + n then bit mag (g - (c + 1))
               else if g div 8 = (c + n - 1) div 8 then False
               else bitAt mA g)"
    using n mA(2) by (auto simp: srcBit_le_bytes)
  have wr: "writeSignedInt w (int n) s = Inr ((), s\<lparr>dataPtr := mB, bitNum := int (c + n)\<rparr>)"
    using mA(1) mB(1) fm
    by (simp add: writeSignedInt_def sw f_def[symmetric] writeInt_def in1 split: if_splits)
  let ?sB = "s\<lparr>dataPtr := mB, bitNum := int c\<rparr>"
  have cl: "c < 8 * length (dataPtr s)" using l1 by (simp add: less_mult_imp_div_less)
  have "bitAt mB c = f" using mB(3)[OF cl] mA(3)[OF cl] by simp
  moreover have "readFlag ?sB = Inr (bitAt (dataPtr ?sB) c, ?sB\<lparr>bitNum := int (c + 1)\<rparr>)"
    using mr n l1 mB(2) r31 by (intro readFlag_bits) auto
  ultimately have rf: "readFlag ?sB = Inr (f, s\<lparr>dataPtr := mB, bitNum := int (c + 1)\<rparr>)" by simp
  let ?sC = "s\<lparr>dataPtr := mB, bitNum := int (c + 1)\<rparr>"
  have n32: "n - 1 \<le> 32" using n by simp
  have "\<exists>r. readInt (int (n - 1)) ?sC = Inr (r, ?sC\<lparr>bitNum := int (c + 1 + (n - 1))\<rparr>) \<and>
           (\<forall>p. bit r p \<longleftrightarrow> p < n - 1 \<and> bitAt (dataPtr ?sC) (c + 1 + p))"
    using mr n len mB(2) r31 by (intro readInt_bits[OF n1 n32]) auto
  then obtain r where r: "readInt (int (n - 1)) ?sC = Inr (r, s\<lparr>dataPtr := mB, bitNum := int (c + n)\<rparr>)"
    "\<And>p. bit r p \<longleftrightarrow> p < n - 1 \<and> bitAt mB (c + 1 + p)"
    using n by auto
  have "bit r p = bit mag p" for p
  proof (cases "p < n - 1")
    case False
    then show ?thesis using r(2)[of p] magbit[of p] by auto
  next
    case True
    have "(c + 1 + p) div 8 \<le> (c + 1 + (n - 1) - 1) div 8" using True by (intro div_le_mono) simp
    then have gl: "c + 1 + p < 8 * length (dataPtr s)" using l2 by (simp add: less_mult_imp_div_less)
    have "\<not> c + 1 + p < c + 1" "c + 1 + p < c + n" "c + 1 + p - (c + 1) = p" using True by simp_all
    with mB(3)[OF gl] have "bitAt mB (c + 1 + p) = bit mag p" by (simp only: if_True if_False)
    then show ?thesis using r(2)[of p] True by simp
  qed
  then have rm: "r = mag" by (rule bit_eqI)
  have "(if f then - mag else mag) = w" by (auto simp: f_def mag_def a_def w_def)
  then have rd: "readSignedInt (int n) ?sB = Inr (w, s\<lparr>dataPtr := mB, bitNum := int (c + n)\<rparr>)"
    using rf r(1) rm by (simp add: readSignedInt_def in1 returnM_def split: if_splits)
  show ?thesis using wr rd mB(2) unfolding w_def by blast
qed

lemma unat_U8_less: "unat (c::U8) < 256"
  using unsigned_less[of c] by simp




lemma dStrlen_le: "dStrlen buf \<le> int (length buf)"
  by (simp add: dStrlen_def length_takeWhile_le)










lemma keeps_errorI:
  assumes "\<And>s r s'. error s \<Longrightarrow> f s = Inr (r, s') \<Longrightarrow> error s'"
  shows "keeps_error f"
  unfolding keeps_error_def
proof (intro allI impI)
  fix s r s'
  assume "error s" "f s = Inr (r, s')"
  then show "error s'" by (rule assms)
qed

lemma keeps_errorD: "keeps_error f \<Longrightarrow> error s \<Longrightarrow> f s = Inr (r, s') \<Longrightarrow> error s'"
  unfolding keeps_error_def by blast

lemma keeps_error_returnM [intro!, simp]: "keeps_error (returnM a)"
  by (auto simp: keeps_error_def returnM_def)

lemma keeps_error_liftF [intro!, simp]: "keeps_error (liftF r)"
  by (auto simp: keeps_error_def liftF_def split: sum.splits)

lemma keeps_error_bindM [intro!]:
  assumes "keeps_error f" "\<And>a. keeps_error (g a)"
  shows "keeps_error (bindM f g)"
proof (rule keeps_errorI)
  fix s r s'
  assume e: "error s" and b: "bindM f g s = Inr (r, s')"
  then obtain a s1 where f: "f s = Inr (a, s1)" and g: "g a s1 = Inr (r, s')"
    by (auto simp: bindM_def split: sum.splits)
  from keeps_errorD[OF assms(1) e f] have "error s1" .
  from keeps_errorD[OF assms(2) this g] show "error s'" .
qed

lemma keeps_error_if [intro!]:
  "(b \<Longrightarrow> keeps_error f) \<Longrightarrow> (\<not> b \<Longrightarrow> keeps_error g) \<Longrightarrow> keeps_error (if b then f else g)"
  by simp

lemma keeps_error_case_prod [intro!]:
  "(\<And>a b. keeps_error (f a b)) \<Longrightarrow> keeps_error (case p of (a, b) \<Rightarrow> f a b)"
  by (cases p) simp

lemma keeps_error_Let [intro!]:
  "keeps_error (f x) \<Longrightarrow> keeps_error (Let x f)"
  by simp


lemma writeBits_keeps_error [intro!, simp]: "keeps_error (writeBits n src)"
  by (rule keeps_errorI) (auto simp: writeBits_def Let_def bindF_def split: sum.splits if_splits)

lemma readBits_keeps_error [intro!, simp]: "keeps_error (readBits n dst)"
  by (rule keeps_errorI) (auto simp: readBits_def Let_def bindF_def split: sum.splits if_splits)

lemma writeFlag_keeps_error [intro!, simp]: "keeps_error (writeFlag v)"
  by (rule keeps_errorI) (auto simp: writeFlag_def bindF_def split: sum.splits if_splits)

lemma readFlag_keeps_error [intro!, simp]: "keeps_error readFlag"
  by (rule keeps_errorI) (auto simp: readFlag_def bindF_def split: sum.splits if_splits)

lemma setBit_keeps_error [intro!, simp]: "keeps_error (setBit n b)"
  by (rule keeps_errorI) (auto simp: setBit_def bindF_def split: sum.splits if_splits)

lemma testBit_keeps_error [intro!, simp]: "keeps_error (testBit n)"
  by (rule keeps_errorI) (auto simp: testBit_def bindF_def split: sum.splits if_splits)

lemma setPosition_keeps_error [intro!, simp]: "keeps_error (setPosition pos)"
  by (rule keeps_errorI) (auto simp: setPosition_def)

lemma setCurPos_keeps_error [intro!, simp]: "keeps_error (setCurPos pos)"
  by (rule keeps_errorI) (auto simp: setCurPos_def)

lemma compression_point_keeps_error [intro!, simp]:
  "keeps_error clearCompressionPoint" "keeps_error (setCompressionPoint p)"
  "keeps_error (setStringBuffer b)"
  by (rule keeps_errorI; auto simp: clearCompressionPoint_def setCompressionPoint_def setStringBuffer_def)+

lemma growth_keeps_error [intro!, simp]:
  "keeps_error (ResizeBitStream_validate junk)" "keeps_error (InfiniteBitStream_validate junk n)"
  "keeps_error (compact junk)" "keeps_error InfiniteBitStream_reset"
     apply (rule keeps_errorI; auto simp: ResizeBitStream_validate_def Let_def split: if_splits)
    apply (rule keeps_errorI; auto simp: InfiniteBitStream_validate_def Let_def split: if_splits)
   apply (rule keeps_errorI; auto simp: compact_def Let_def bindF_def split: if_splits sum.splits)
  apply (auto simp: InfiniteBitStream_reset_def)
  done

lemma raw_keeps_error [intro!, simp]:
  "keeps_error (read_raw n dst)" "keeps_error (write_raw n src)"
  by (auto simp: read_raw_def write_raw_def)

lemma int_keeps_error [intro!, simp]:
  "keeps_error (readInt n)" "keeps_error (writeInt v n)"
  "keeps_error (readSignedInt n)" "keeps_error (writeSignedInt v n)"
  by (auto simp: readInt_def writeInt_def readSignedInt_def writeSignedInt_def)

lemma float_keeps_error [intro!, simp]:
  "keeps_error (write_F32 f)" "keeps_error (read_F32 f)"
  "keeps_error (writeFloat fp f n)" "keeps_error (readFloat fp n)"
  "keeps_error (writeSignedFloat fp f n)" "keeps_error (readSignedFloat fp n)"
  by (auto simp: write_F32_def read_F32_def writeFloat_def readFloat_def writeSignedFloat_def
      readSignedFloat_def)

lemma vector_keeps_error [intro!, simp]:
  "keeps_error (writeNormalVector fp vec n)" "keeps_error (readNormalVector fp n)"
  "keeps_error (writeNormalVector2 fp vec a z)" "keeps_error (readNormalVector2 fp a z)"
  "keeps_error (writeVector fp vec minMag maxMag magBits a z)"
  "keeps_error (readVector fp mag0 minMag maxMag magBits a z)"
  by (auto simp: writeNormalVector_def readNormalVector_def writeNormalVector2_def
      readNormalVector2_def writeVector_def readVector_def Let_def)

lemma affine_keeps_error [intro!, simp]:
  "keeps_error (mathWrite p)" "keeps_error (mathRead p)"
  "keeps_error (writeAffineTransform fp matrix)" "keeps_error (readAffineTransform fp pos0 q0)"
  by (auto simp: mathWrite_def mathRead_def writeAffineTransform_def readAffineTransform_def Let_def
      split: prod.splits)

lemma classId_keeps_error [intro!, simp]:
  "keeps_error (writeClassId bitSize classId)" "keeps_error (readClassId bitSize count)"
  by (auto simp: writeClassId_def readClassId_def)



lemma compressedPoint_keeps_error [intro!, simp]:
  "keeps_error (writeCompressedPoint fp p scale)" "keeps_error (readCompressedPoint fp p scale)"
proof -
  have kw: "keeps_error (bindM (writeInt t 2) (\<lambda>_.
           if t \<noteq> 3 then
             bindM (liftF (ld gBitCounts (uint t))) (\<lambda>bits.
             bindM (writeSignedInt a bits) (\<lambda>_.
             bindM (writeSignedInt b bits) (\<lambda>_.
             writeSignedInt c bits)))
           else
             bindM (write_F32 x) (\<lambda>_.
             bindM (write_F32 y) (\<lambda>_.
             bindM (write_F32 z) (\<lambda>_. returnM ())))))" for t :: U32 and a b c x y z
    by auto
  show "keeps_error (writeCompressedPoint fp p scale)"
  proof (rule keeps_errorI)
    fix s r s'
    assume e: "error s" and w: "writeCompressedPoint fp p scale s = Inr (r, s')"
    from w show "error s'"
      unfolding writeCompressedPoint_def Let_def by (rule keeps_errorD[OF kw e])
  qed
  have k: "keeps_error (\<lambda>s. returnM (F s) s)" for F :: "BitStream \<Rightarrow> Point3F"
    by (rule keeps_errorI) (auto simp: returnM_def)
  show "keeps_error (readCompressedPoint fp p scale)"
    unfolding readCompressedPoint_def by (intro keeps_error_bindM keeps_error_if k) auto
qed

lemma writeHuffBuffer_codes_keeps_error [intro!, simp]:
  "keeps_error (writeHuffBuffer_codes leaves buf len' i)"
proof (rule keeps_errorI)
  fix s r s'
  show "error s \<Longrightarrow> writeHuffBuffer_codes leaves buf len' i s = Inr (r, s') \<Longrightarrow> error s'"
  proof (induction leaves buf len' i s rule: writeHuffBuffer_codes.induct)
    case (1 leaves buf len' i s)
    show ?case
    proof (cases "i < len'")
      case False
      with 1(3) have "s' = s" by (subst (asm) writeHuffBuffer_codes.simps) simp
      with 1(2) show ?thesis by simp
    next
      case True
      from 1(3) True obtain rLeaf u s1 where
        l: "ld leaves (uint (cchar buf (nat i))) = Inr rLeaf"
        and w: "writeBits (uint (numBits rLeaf)) (le_bytes (code rLeaf)) s = Inr (u, s1)"
        and r: "writeHuffBuffer_codes leaves buf len' (i + 1) s1 = Inr (r, s')"
        by (subst (asm) writeHuffBuffer_codes.simps) (auto split: sum.splits)
      have "error s1" using keeps_errorD[OF writeBits_keeps_error 1(2) w] .
      from 1(1)[OF True l w _ this r] show ?thesis by simp
    qed
  qed
qed

lemma writeHuffBuffer_keeps_error [intro!, simp]:
  "keeps_error (writeHuffBuffer hp out_pBuffer maxLen)"
  unfolding writeHuffBuffer_def by (auto simp: Let_def split: option.splits)

lemma readHuffBuffer_descend_error:
  "error s \<Longrightarrow> readHuffBuffer_descend fuel nodes index s = Inr (r, s') \<Longrightarrow> error s'"
proof (induction fuel nodes index s rule: readHuffBuffer_descend.induct)
  case (1 nodes index s)
  then show ?case by simp
next
  case (2 fuel nodes index s)
  show ?case
  proof (cases "index \<ge> 0")
    case False
    with 2(3) have "s' = s" by simp
    with 2(2) show ?thesis by simp
  next
    case True
    from 2(3) True obtain f s1 nd where
      a: "readFlag s = Inr (f, s1)" and b: "ld nodes index = Inr nd"
      and c: "readHuffBuffer_descend fuel nodes (if f then index1 nd else index0 nd) s1 = Inr (r, s')"
      by (auto split: sum.splits)
    have "error s1" using keeps_errorD[OF readFlag_keeps_error 2(2) a] .
    from 2(1)[OF True a _ b this c] show ?thesis by simp
  qed
qed

lemma readHuffBuffer_symbols_keeps_error [intro!, simp]:
  "keeps_error (readHuffBuffer_symbols hp len' i out off)"
proof (rule keeps_errorI)
  fix s r s'
  show "error s \<Longrightarrow> readHuffBuffer_symbols hp len' i out off s = Inr (r, s') \<Longrightarrow> error s'"
  proof (induction hp len' i out off s rule: readHuffBuffer_symbols.induct)
    case (1 hp len' i out off s)
    show ?case
    proof (cases "i < len'")
      case False
      with 1(3) have "s' = s" by (subst (asm) readHuffBuffer_symbols.simps) simp
      with 1(2) show ?thesis by simp
    next
      case True
      from 1(3) True obtain index s1 out' where
        a: "readHuffBuffer_descend (Suc (length (m_huffNodes hp))) (m_huffNodes hp) 0 s = Inr (index, s1)"
        and b: "bindF (ld (m_huffLeaves hp) (- (index + 1))) (\<lambda>rLeaf. sto out (off + i) (symbol rLeaf)) = Inr out'"
        and c: "readHuffBuffer_symbols hp len' (i + 1) out' off s1 = Inr (r, s')"
        by (subst (asm) readHuffBuffer_symbols.simps) (auto split: sum.splits)
      have "error s1" using readHuffBuffer_descend_error[OF 1(2) a] .
      from 1(1)[OF True a _ b this c] show ?thesis by simp
    qed
  qed
qed

lemma readHuffBuffer_keeps_error [intro!, simp]:
  "keeps_error (readHuffBuffer hp out off)"
  unfolding readHuffBuffer_def by (auto simp: Let_def)

lemma string_keeps_error [intro!, simp]:
  "keeps_error (writeString hp string maxLen)" "keeps_error (readString hp buf)"
proof -
  show "keeps_error (writeString hp string maxLen)"
  proof (rule keeps_errorI)
    fix s r s'
    assume e: "error s" and w: "writeString hp string maxLen s = Inr (r, s')"
    show "error s'"
    proof (cases "stringBuffer s")
      case None
      with w have "bindM (writeHuffBuffer hp (Some (case string of None \<Rightarrow> [] | Some x \<Rightarrow> x)) maxLen)
                     (\<lambda>(_, hp'). returnM hp') s = Inr (r, s')"
        by (simp add: writeString_def)
      moreover have "keeps_error (bindM (writeHuffBuffer hp (Some (case string of None \<Rightarrow> [] | Some x \<Rightarrow> x)) maxLen)
                     (\<lambda>(_, hp'). returnM hp'))" by auto
      ultimately show ?thesis using e by (rule keeps_errorD[rotated 2])
    next
      case (Some sb)
      let ?str = "case string of None \<Rightarrow> [] | Some x \<Rightarrow> x"
      from w Some obtain j sb2 where
        c: "bindM (writeFlag (j > 2)) (\<lambda>f.
              if f then
                bindM (writeInt (word_of_int j) 8) (\<lambda>_.
                bindM (writeHuffBuffer hp (Some (drop (nat j) ?str)) (maxLen - j)) (\<lambda>(_, hp').
                returnM hp'))
              else
                bindM (writeHuffBuffer hp (Some ?str) maxLen) (\<lambda>(_, hp'). returnM hp'))
              (s\<lparr>stringBuffer := Some sb2\<rparr>) = Inr (r, s')"
        by (auto simp: writeString_def Let_def bindF_def split: sum.splits)
      have k: "keeps_error (bindM (writeFlag (j > 2)) (\<lambda>f.
              if f then
                bindM (writeInt (word_of_int j) 8) (\<lambda>_.
                bindM (writeHuffBuffer hp (Some (drop (nat j) ?str)) (maxLen - j)) (\<lambda>(_, hp').
                returnM hp'))
              else
                bindM (writeHuffBuffer hp (Some ?str) maxLen) (\<lambda>(_, hp'). returnM hp')))" by auto
      have "error (s\<lparr>stringBuffer := Some sb2\<rparr>)" using e by simp
      from keeps_errorD[OF k this c] show ?thesis .
    qed
  qed
  have sc: "keeps_error (\<lambda>s'. case stringBuffer s' of
                      None \<Rightarrow> Inr (x, s')
                    | Some sb \<Rightarrow> bindF (dStrcpy sb b) (\<lambda>sb'. Inr (x, s'\<lparr>stringBuffer := Some sb'\<rparr>)))"
    for x :: "HuffmanProcessor \<times> U8 list" and b
    by (rule keeps_errorI) (auto simp: bindF_def split: option.splits sum.splits)
  have sc2: "keeps_error (\<lambda>s'. bindF (dStrcpy buf sb') (\<lambda>buf'.
                       Inr ((hp', buf'), s'\<lparr>stringBuffer := Some sb'\<rparr>)))" for sb' hp'
    by (rule keeps_errorI) (auto simp: bindF_def split: option.splits sum.splits)
  have plain: "keeps_error (bindM (readHuffBuffer hp buf 0) (\<lambda>(_, hp', buf').
              (\<lambda>s'. case stringBuffer s' of
                      None \<Rightarrow> Inr ((hp', buf'), s')
                    | Some sb \<Rightarrow>
                        bindF (dStrcpy sb buf') (\<lambda>sb'.
                          Inr ((hp', buf'), s'\<lparr>stringBuffer := Some sb'\<rparr>)))))"
    by (intro keeps_error_bindM keeps_error_case_prod sc) auto
  show "keeps_error (readString hp buf)"
  proof (rule keeps_errorI)
    fix s r s'
    assume e: "error s" and w: "readString hp buf s = Inr (r, s')"
    show "error s'"
    proof (cases "stringBuffer s")
      case None
      with w show ?thesis using keeps_errorD[OF plain e] by (simp add: readString_def Let_def)
    next
      case (Some sb)
      have k: "keeps_error (bindM readFlag (\<lambda>f.
            if f then
              bindM (readInt 8) (\<lambda>offset.
              bindM (readHuffBuffer hp sb (sint offset)) (\<lambda>(_, hp', sb').
              (\<lambda>s'. bindF (dStrcpy buf sb') (\<lambda>buf'.
                       Inr ((hp', buf'), s'\<lparr>stringBuffer := Some sb'\<rparr>)))))
            else bindM (readHuffBuffer hp buf 0) (\<lambda>(_, hp', buf').
              (\<lambda>s'. case stringBuffer s' of
                      None \<Rightarrow> Inr ((hp', buf'), s')
                    | Some sb \<Rightarrow>
                        bindF (dStrcpy sb buf') (\<lambda>sb'.
                          Inr ((hp', buf'), s'\<lparr>stringBuffer := Some sb'\<rparr>))))))"
        by (intro keeps_error_bindM keeps_error_if keeps_error_case_prod sc sc2 plain) auto
      from w Some show ?thesis using keeps_errorD[OF k e] by (simp add: readString_def Let_def)
    qed
  qed
qed

section \<open>Fields on the wire\<close>

text \<open>
  Writers and readers compose: a sequence of writes lays out the concatenation of the
  fields, a sequence of reads consumes them in order.
\<close>

lemma length_bitsAt [simp]: "length (bitsAt m c k) = k"
  by (simp add: bitsAt_def)

lemma nth_bitsAt: "p < k \<Longrightarrow> bitsAt m c k ! p = bitAt m (c + p)"
  by (simp add: bitsAt_def)

lemma length_intField [simp]: "length (intField n v) = n"
  by (simp add: intField_def)

lemma nth_intField: "p < n \<Longrightarrow> intField n v ! p = bit v p"
  by (simp add: intField_def)

lemma length_signedField [simp]: "0 < n \<Longrightarrow> length (signedField n v) = n"
  by (simp add: signedField_def)

lemma bitsAt_add: "bitsAt m c (k1 + k2) = bitsAt m c k1 @ bitsAt m (c + k1) k2"
  by (rule nth_equalityI) (auto simp: nth_bitsAt nth_append add.assoc)

lemma bitsAt_cong:
  assumes "\<And>g. g < c + k \<Longrightarrow> bitAt m g = bitAt m' g"
  shows "bitsAt m c k = bitsAt m' c k"
  by (rule nth_equalityI) (simp_all add: nth_bitsAt assms)

lemma bit_word_of_bits:
  "length bs \<le> 32 \<Longrightarrow> bit (word_of_bits bs) p \<longleftrightarrow> p < length bs \<and> bs ! p"
  by (auto simp: word_of_bits_def bit_horner_sum_bit_word_iff)

lemma word_of_bits_intField: "n \<le> 32 \<Longrightarrow> word_of_bits (intField n v) = take_bit n v"
  by (rule bit_eqI) (auto simp: bit_word_of_bits nth_intField bit_take_bit_iff)

lemma word_of_bits_intField_32: "word_of_bits (intField 32 v) = v"
  by (rule bit_eqI) (auto simp: bit_word_of_bits nth_intField dest: bit_imp_le_length)

lemma div8_mono: "(a::nat) \<le> b \<Longrightarrow> a div 8 \<le> b div 8"
  by (rule div_le_mono)

lemma lt_8len: "(a::nat) div 8 < n \<Longrightarrow> a < 8 * n"
  by (simp add: less_mult_imp_div_less mult.commute)

lemma rd_len: "c div 8 + (n + 7) div 8 \<le> (c + n) div 8 + (1::nat)"
proof -
  have "(n + 7) div 8 \<le> n div 8 + 1" by simp
  moreover have "c div 8 + n div 8 \<le> (c + n) div 8" using div_add1_eq[of c n 8] by linarith
  ultimately show ?thesis by linarith
qed

lemma wr_okI:
  assumes "\<And>s c. bitNum s = int c \<Longrightarrow> int (c + length bs) \<le> maxWriteBitNum s \<Longrightarrow>
            maxWriteBitNum s < 2 ^ 31 \<Longrightarrow>
            (c + length bs) div 8 < length (dataPtr s) \<Longrightarrow>
        \<exists>m'. W s = Inr (r, s\<lparr>dataPtr := m', bitNum := int (c + length bs)\<rparr>) \<and>
              length m' = length (dataPtr s) \<and>
              (\<forall>g. g < c \<longrightarrow> bitAt m' g = bitAt (dataPtr s) g) \<and>
              bitsAt m' c (length bs) = bs"
  shows "wr_ok W bs r"
  unfolding wr_ok_def using assms by blast

lemma wr_okD:
  assumes "wr_ok W bs r" "bitNum s = int c" "int (c + length bs) \<le> maxWriteBitNum s"
    "maxWriteBitNum s < 2 ^ 31" "(c + length bs) div 8 < length (dataPtr s)"
  obtains m' where "W s = Inr (r, s\<lparr>dataPtr := m', bitNum := int (c + length bs)\<rparr>)"
    "length m' = length (dataPtr s)"
    "\<And>g. g < c \<Longrightarrow> bitAt m' g = bitAt (dataPtr s) g"
    "bitsAt m' c (length bs) = bs"
  using assms unfolding wr_ok_def by blast

lemma wr_ok_returnM: "wr_ok (returnM x) [] x"
  by (rule wr_okI) (auto simp: returnM_def bitsAt_def intro!: exI[of _ "dataPtr s" for s])

lemma wr_ok_writeFlag: "wr_ok (writeFlag v) [v] v"
proof (rule wr_okI)
  fix s :: BitStream and c :: nat
  assume a: "bitNum s = int c" "int (c + length [v]) \<le> maxWriteBitNum s"
    "(c + length [v]) div 8 < length (dataPtr s)" and w31: "maxWriteBitNum s < 2 ^ 31"
  have l: "c div 8 < length (dataPtr s)" using a(3) div8_mono[of c "c + 1"] by simp
  have cl: "c < 8 * length (dataPtr s)" using l by (rule lt_8len)
  from writeFlag_bits[OF a(1) _ l w31, of v] a(2)
  obtain m' where m': "writeFlag v s = Inr (v, s\<lparr>dataPtr := m', bitNum := int (c + 1)\<rparr>)"
    "length m' = length (dataPtr s)"
    "\<And>g. g < 8 * length (dataPtr s) \<Longrightarrow> bitAt m' g = (if g = c then v else bitAt (dataPtr s) g)"
    by auto
  have "bitAt m' g = bitAt (dataPtr s) g" if "g < c" for g
    using m'(3)[of g] that cl by simp
  moreover have "bitsAt m' c (length [v]) = [v]"
    using m'(3)[of c] cl by (simp add: bitsAt_def)
  ultimately show "\<exists>m'. writeFlag v s = Inr (v, s\<lparr>dataPtr := m', bitNum := int (c + length [v])\<rparr>) \<and>
              length m' = length (dataPtr s) \<and>
              (\<forall>g. g < c \<longrightarrow> bitAt m' g = bitAt (dataPtr s) g) \<and>
              bitsAt m' c (length [v]) = [v]"
    using m'(1,2) by auto
qed

lemma wr_ok_writeBits: "wr_ok (writeBits (int n) src) (map (srcBit src) [0 ..< n]) ()"
proof (cases "n = 0")
  case True
  then show ?thesis
    by (intro wr_okI) (auto simp: writeBits_def bitsAt_def intro!: exI[of _ "dataPtr s" for s])
next
  case False
  then have n0: "0 < n" by simp
  show ?thesis
  proof (rule wr_okI)
    fix s :: BitStream and c :: nat
    assume "bitNum s = int c" "int (c + length (map (srcBit src) [0 ..< n])) \<le> maxWriteBitNum s"
      "(c + length (map (srcBit src) [0 ..< n])) div 8 < length (dataPtr s)"
      and w31: "maxWriteBitNum s < 2 ^ 31"
    then have a: "bitNum s = int c" "int (c + n) \<le> maxWriteBitNum s" "(c + n) div 8 < length (dataPtr s)"
      by simp_all
    have l: "(c + n - 1) div 8 < length (dataPtr s)" using a(3) div8_mono[of "c + n - 1" "c + n"] by simp
    have le: "int n + int c \<le> maxWriteBitNum s" using a(2) by simp
    have cl: "c + n < 8 * length (dataPtr s)" using a(3) by (rule lt_8len)
    from writeBits_bits[OF n0 a(1) le l w31, of src]
    obtain m' where m': "writeBits (int n) src s = Inr ((), s\<lparr>dataPtr := m', bitNum := int (c + n)\<rparr>)"
      "length m' = length (dataPtr s)"
      "\<And>g. g < 8 * length (dataPtr s) \<Longrightarrow> bitAt m' g =
                (if g < c then bitAt (dataPtr s) g
                 else if g < c + n then srcBit src (g - c)
                 else if g div 8 = (c + n - 1) div 8 then False
                 else bitAt (dataPtr s) g)"
      by blast
    have "bitAt m' g = bitAt (dataPtr s) g" if "g < c" for g
      using m'(3)[of g] that cl by simp
    moreover have "bitAt m' (c + p) = srcBit src p" if "p < n" for p
      using m'(3)[of "c + p"] that cl by simp
    then have "bitsAt m' c n = map (srcBit src) [0 ..< n]"
      by (intro nth_equalityI) (simp_all add: nth_bitsAt)
    ultimately show "\<exists>m'. writeBits (int n) src s =
                Inr ((), s\<lparr>dataPtr := m', bitNum := int (c + length (map (srcBit src) [0 ..< n]))\<rparr>) \<and>
                length m' = length (dataPtr s) \<and>
                (\<forall>g. g < c \<longrightarrow> bitAt m' g = bitAt (dataPtr s) g) \<and>
                bitsAt m' c (length (map (srcBit src) [0 ..< n])) = map (srcBit src) [0 ..< n]"
      using m'(1,2) by auto
  qed
qed

lemma wr_ok_writeInt: "wr_ok (writeInt v (int n)) (intField n v) ()"
proof -
  have "map (srcBit (le_bytes v)) [0 ..< n] = intField n v"
    by (simp add: intField_def srcBit_le_bytes[abs_def])
  then show ?thesis using wr_ok_writeBits[of n "le_bytes v"] by (simp add: writeInt_def)
qed

lemma wr_ok_bindM:
  assumes "wr_ok W1 bs1 r1" "wr_ok (W2 r1) bs2 r2"
  shows "wr_ok (bindM W1 W2) (bs1 @ bs2) r2"
proof (rule wr_okI)
  fix s :: BitStream and c :: nat
  let ?k1 = "length bs1" and ?k2 = "length bs2"
  assume w31: "maxWriteBitNum s < 2 ^ 31"
  assume "bitNum s = int c" "int (c + length (bs1 @ bs2)) \<le> maxWriteBitNum s"
    "(c + length (bs1 @ bs2)) div 8 < length (dataPtr s)"
  then have a: "bitNum s = int c" "int (c + (?k1 + ?k2)) \<le> maxWriteBitNum s"
    "(c + (?k1 + ?k2)) div 8 < length (dataPtr s)" by simp_all
  have l1: "(c + ?k1) div 8 < length (dataPtr s)"
    using a(3) div8_mono[of "c + ?k1" "c + (?k1 + ?k2)"] by simp
  have w1: "int (c + ?k1) \<le> maxWriteBitNum s" using a(2) by simp
  from wr_okD[OF assms(1) a(1) w1 w31 l1] obtain m1 where
    m1: "W1 s = Inr (r1, s\<lparr>dataPtr := m1, bitNum := int (c + ?k1)\<rparr>)"
    "length m1 = length (dataPtr s)"
    "\<And>g. g < c \<Longrightarrow> bitAt m1 g = bitAt (dataPtr s) g"
    "bitsAt m1 c ?k1 = bs1" by blast
  let ?s1 = "s\<lparr>dataPtr := m1, bitNum := int (c + ?k1)\<rparr>"
  have b: "bitNum ?s1 = int (c + ?k1)" "int (c + ?k1 + ?k2) \<le> maxWriteBitNum ?s1"
    "maxWriteBitNum ?s1 < 2 ^ 31"
    "(c + ?k1 + ?k2) div 8 < length (dataPtr ?s1)"
    using a m1(2) w31 by (simp_all add: add.assoc)
  from wr_okD[OF assms(2) b] obtain m2 where
    m2: "W2 r1 ?s1 = Inr (r2, ?s1\<lparr>dataPtr := m2, bitNum := int (c + ?k1 + ?k2)\<rparr>)"
    "length m2 = length (dataPtr ?s1)"
    "\<And>g. g < c + ?k1 \<Longrightarrow> bitAt m2 g = bitAt (dataPtr ?s1) g"
    "bitsAt m2 (c + ?k1) ?k2 = bs2" by blast
  have e: "bindM W1 W2 s = Inr (r2, s\<lparr>dataPtr := m2, bitNum := int (c + length (bs1 @ bs2))\<rparr>)"
    using m1(1) m2(1) by (simp add: bindM_def add.assoc)
  have f: "bitAt m2 g = bitAt (dataPtr s) g" if "g < c" for g
    using m2(3)[of g] m1(3)[of g] that by simp
  have "bitsAt m2 c ?k1 = bitsAt m1 c ?k1"
    by (rule bitsAt_cong) (use m2(3) in simp)
  then have "bitsAt m2 c (length (bs1 @ bs2)) = bs1 @ bs2"
    using m1(4) m2(4) by (simp add: bitsAt_add)
  then show "\<exists>m'. bindM W1 W2 s = Inr (r2, s\<lparr>dataPtr := m', bitNum := int (c + length (bs1 @ bs2))\<rparr>) \<and>
              length m' = length (dataPtr s) \<and>
              (\<forall>g. g < c \<longrightarrow> bitAt m' g = bitAt (dataPtr s) g) \<and>
              bitsAt m' c (length (bs1 @ bs2)) = bs1 @ bs2"
    using e f m1(2) m2(2) by auto
qed

lemma wr_ok_writeSignedInt:
  assumes "1 < n" "n \<le> 33"
  shows "wr_ok (writeSignedInt v (int n)) (signedField n v) ()"
proof -
  have in1: "wrapS32 (int n - 1) = int (n - 1)" using assms by (simp add: wrapS32_id)
  let ?W2 = "\<lambda>f. if f then writeInt (- v) (int (n - 1)) else writeInt v (int (n - 1))"
  have br: "wr_ok (?W2 (sint v < 0)) (intField (n - 1) (if sint v < 0 then - v else v)) ()"
    using wr_ok_writeInt by simp
  have "wr_ok (bindM (writeFlag (sint v < 0)) ?W2)
           ([sint v < 0] @ intField (n - 1) (if sint v < 0 then - v else v)) ()"
    using wr_ok_bindM[of "writeFlag (sint v < 0)" "[sint v < 0]" "sint v < 0" ?W2
        "intField (n - 1) (if sint v < 0 then - v else v)" "()", OF wr_ok_writeFlag br] .
  then show ?thesis unfolding writeSignedInt_def in1 signedField_def by simp
qed

lemma wr_ok_write_F32: "wr_ok (write_F32 f) (intField 32 f) True"
proof -
  have r: "wr_ok ((\<lambda>_. returnM True) ()) [] True" by (rule wr_ok_returnM)
  have w: "wr_ok (writeInt f (int 32)) (intField 32 f) ()"
    by (rule wr_ok_writeInt)
  have "wr_ok (bindM (writeInt f (int 32)) (\<lambda>_. returnM True)) (intField 32 f @ []) True"
    using wr_ok_bindM[of "writeInt f (int 32)" "intField 32 f" "()"
        "\<lambda>_. returnM True" "[]" True, OF w r] .
  then show ?thesis
    unfolding write_F32_def write_raw_def writeInt_def by (simp add: wrapS32_id)
qed

lemma rd_okI:
  assumes "\<And>s c. mCompressPoint s = a \<Longrightarrow> bitNum s = int c \<Longrightarrow>
            int (c + k) \<le> maxReadBitNum s \<Longrightarrow> maxReadBitNum s < 2 ^ 31 \<Longrightarrow>
            (c + k) div 8 + 1 < length (dataPtr s) \<Longrightarrow>
        R s = Inr (F (bitsAt (dataPtr s) c k), s\<lparr>bitNum := int (c + k)\<rparr>)"
  shows "rd_ok a R k F"
  unfolding rd_ok_def using assms by blast

lemma rd_okD:
  assumes "rd_ok a R k F" "mCompressPoint s = a" "bitNum s = int c"
    "int (c + k) \<le> maxReadBitNum s" "maxReadBitNum s < 2 ^ 31"
    "(c + k) div 8 + 1 < length (dataPtr s)"
  shows "R s = Inr (F (bitsAt (dataPtr s) c k), s\<lparr>bitNum := int (c + k)\<rparr>)"
  using assms unfolding rd_ok_def by blast

lemma rd_ok_returnM: "rd_ok a (returnM x) 0 (\<lambda>bs. x)"
  by (rule rd_okI) (simp_all add: returnM_def)

lemma rd_ok_anchor: "rd_ok a (\<lambda>s. returnM (G (mCompressPoint s)) s) 0 (\<lambda>bs. G a)"
  by (rule rd_okI) (simp_all add: returnM_def)

lemma rd_ok_readFlag: "rd_ok a readFlag 1 hd"
proof (rule rd_okI)
  fix s :: BitStream and c :: nat
  assume a: "bitNum s = int c" "int (c + 1) \<le> maxReadBitNum s" "(c + 1) div 8 + 1 < length (dataPtr s)"
    and r31: "maxReadBitNum s < 2 ^ 31"
  have l: "c div 8 < length (dataPtr s)" using a(3) div8_mono[of c "c + 1"] by simp
  have le: "int c + 1 \<le> maxReadBitNum s" using a(2) by simp
  show "readFlag s = Inr (hd (bitsAt (dataPtr s) c 1), s\<lparr>bitNum := int (c + 1)\<rparr>)"
    using readFlag_bits[OF a(1) le l r31] by (simp add: bitsAt_def)
qed

lemma rd_ok_readInt:
  assumes "0 < n" "n \<le> 32"
  shows "rd_ok a (readInt (int n)) n word_of_bits"
proof (rule rd_okI)
  fix s :: BitStream and c :: nat
  assume a: "bitNum s = int c" "int (c + n) \<le> maxReadBitNum s" "(c + n) div 8 + 1 < length (dataPtr s)"
    and r31: "maxReadBitNum s < 2 ^ 31"
  have l: "c div 8 + (n + 7) div 8 < length (dataPtr s)" using a(3) rd_len[of c n] by linarith
  have le: "int n + int c \<le> maxReadBitNum s" using a(2) by simp
  from readInt_bits[OF assms a(1) le l r31] obtain r where
    r: "readInt (int n) s = Inr (r, s\<lparr>bitNum := int (c + n)\<rparr>)"
       "\<And>p. bit r p \<longleftrightarrow> p < n \<and> bitAt (dataPtr s) (c + p)" by blast
  have "r = word_of_bits (bitsAt (dataPtr s) c n)"
    by (rule bit_eqI) (auto simp: r(2) bit_word_of_bits assms(2) nth_bitsAt)
  then show "readInt (int n) s = Inr (word_of_bits (bitsAt (dataPtr s) c n), s\<lparr>bitNum := int (c + n)\<rparr>)"
    using r(1) by simp
qed

lemma rd_ok_bindM:
  assumes "rd_ok a R1 k1 F1" "\<And>x. rd_ok a (R2 x) k2 (F2 x)"
  shows "rd_ok a (bindM R1 R2) (k1 + k2) (\<lambda>bs. F2 (F1 (take k1 bs)) (drop k1 bs))"
proof (rule rd_okI)
  fix s :: BitStream and c :: nat
  assume a: "mCompressPoint s = a" "bitNum s = int c" "int (c + (k1 + k2)) \<le> maxReadBitNum s"
    "(c + (k1 + k2)) div 8 + 1 < length (dataPtr s)" and r31: "maxReadBitNum s < 2 ^ 31"
  have l1: "(c + k1) div 8 + 1 < length (dataPtr s)"
    using a(4) div8_mono[of "c + k1" "c + (k1 + k2)"] by simp
  have w1: "int (c + k1) \<le> maxReadBitNum s" using a(3) by simp
  note r1 = rd_okD[OF assms(1) a(1,2) w1 r31 l1]
  let ?s1 = "s\<lparr>bitNum := int (c + k1)\<rparr>"
  have b: "mCompressPoint ?s1 = a" "bitNum ?s1 = int (c + k1)"
    "int (c + k1 + k2) \<le> maxReadBitNum ?s1" "maxReadBitNum ?s1 < 2 ^ 31"
    "(c + k1 + k2) div 8 + 1 < length (dataPtr ?s1)"
    using a r31 by (simp_all add: add.assoc)
  note r2 = rd_okD[OF assms(2) b]
  show "bindM R1 R2 s = Inr (F2 (F1 (take k1 (bitsAt (dataPtr s) c (k1 + k2))))
            (drop k1 (bitsAt (dataPtr s) c (k1 + k2))), s\<lparr>bitNum := int (c + (k1 + k2))\<rparr>)"
    using r1 r2 by (simp add: bindM_def add.assoc bitsAt_add)
qed

lemma rd_ok_readSignedInt:
  assumes "1 < n" "n \<le> 33"
  shows "rd_ok a (readSignedInt (int n)) n
           (\<lambda>bs. if hd bs then - word_of_bits (tl bs) else word_of_bits (tl bs))"
proof -
  have n1: "0 < n - 1" "n - 1 \<le> 32" using assms by simp_all
  have in1: "wrapS32 (int n - 1) = int (n - 1)" using assms by (simp add: wrapS32_id)
  have neg: "rd_ok a (bindM (readInt (int (n - 1))) (\<lambda>r. returnM (- r))) (n - 1 + 0)
               (\<lambda>bs. - word_of_bits (take (n - 1) bs))"
    by (rule rd_ok_bindM[OF rd_ok_readInt[OF n1] rd_ok_returnM])
  have neg': "rd_ok a (bindM (readInt (int (n - 1))) (\<lambda>r. returnM (- r))) (n - 1)
               (\<lambda>bs. - word_of_bits (take (n - 1) bs))"
    using neg by simp
  have pos: "rd_ok a (readInt (int (n - 1))) (n - 1) (\<lambda>bs. word_of_bits (take (n - 1) bs))"
    using rd_ok_readInt[OF n1, of a] unfolding rd_ok_def by simp
  have br: "rd_ok a (if f then bindM (readInt (int (n - 1))) (\<lambda>r. returnM (- r)) else readInt (int (n - 1)))
             (n - 1) (\<lambda>bs. if f then - word_of_bits (take (n - 1) bs) else word_of_bits (take (n - 1) bs))" for f
    using neg' pos by (cases f) simp_all
  have "rd_ok a (readSignedInt (int n)) (1 + (n - 1))
           (\<lambda>bs. if hd (take 1 bs) then - word_of_bits (take (n - 1) (drop 1 bs))
                 else word_of_bits (take (n - 1) (drop 1 bs)))"
    unfolding readSignedInt_def in1
    by (rule rd_ok_bindM[OF rd_ok_readFlag br])
  then show ?thesis using assms unfolding rd_ok_def
    by (simp add: drop_Suc bitsAt_def upt_conv_Cons del: upt_Suc)
qed

lemma signedField_decode:
  assumes "1 < n" "n \<le> 33"
  shows "(if hd (signedField n v) then - word_of_bits (tl (signedField n v))
          else word_of_bits (tl (signedField n v))) = signMagnitude n v"
proof -
  have "n - 1 \<le> 32" using assms by simp
  then show ?thesis by (simp add: signMagnitude_def signedField_def word_of_bits_intField)
qed

lemma rd_ok_read_F32: "rd_ok a (read_F32 old) 32 word_of_bits"
proof (rule rd_okI)
  fix s :: BitStream and c :: nat
  assume a: "bitNum s = int c" "int (c + 32) \<le> maxReadBitNum s" "(c + 32) div 8 + 1 < length (dataPtr s)"
    and r31: "maxReadBitNum s < 2 ^ 31"
  let ?dst = "map (le_bytes old) [0 ..< 4]"
  have l: "c div 8 + (32 + 7) div 8 < length (dataPtr s)" using a(3) by simp
  have le: "int 32 + int c \<le> maxReadBitNum s" using a(2) by simp
  have ld: "(32 + 7) div 8 \<le> length ?dst" by simp
  from readBits_bits[OF _ a(1) le l ld r31] obtain d where
    d: "readBits (int 32) ?dst s = Inr (d, s\<lparr>bitNum := int (c + 32)\<rparr>)"
       "length d = length ?dst"
       "\<And>k b. k < 4 \<Longrightarrow> b < 8 \<Longrightarrow> bit (d ! k) b = bitAt (dataPtr s) (c + 8 * k + b)"
    by auto
  have "word_of_bytes d = word_of_bits (bitsAt (dataPtr s) c 32)"
  proof (rule bit_eqI)
    fix p
    have "bit (d ! (p div 8)) (p mod 8) = bitAt (dataPtr s) (c + p)" if "p < 32"
    proof -
      have "p div 8 < 4" using that by simp
      from d(3)[OF this, of "p mod 8"] show ?thesis by (simp add: add.assoc)
    qed
    then show "bit (word_of_bytes d) p = bit (word_of_bits (bitsAt (dataPtr s) c 32)) p"
      by (auto simp: bit_word_of_bytes bit_word_of_bits nth_bitsAt)
  qed
  then show "read_F32 old s = Inr (word_of_bits (bitsAt (dataPtr s) c 32), s\<lparr>bitNum := int (c + 32)\<rparr>)"
    using d(1) by (simp add: read_F32_def read_raw_def bindM_def returnM_def wrapS32_id)
qed




section \<open>Out-of-range writes and reads\<close>

text \<open>
  C2, as stated, fails where the 32-bit sum of the bounds test wraps. On a two-byte
  stream at cursor 8 a \<open>writeBits\<close> of \<open>0x7FFFFFFF\<close> bits has \<open>bit_cursor + n\<close> far above
  \<open>max_write_bits = 16\<close>, but the sum the code compares is \<open>-2147483641\<close>: the test
  lets the write through, the first byte is stored, and the write leaves the buffer
  (the last byte is addressed at index \<open>-268435456\<close>) without ever setting the error
  flag. A \<open>writeFlag\<close> at cursor \<open>0x7FFFFFFF\<close> passes its test the same way.
\<close>

theorem writeBits_bounds_test_wraps:
  "(0::int) < 0x7FFFFFFF \<and>
   bitNum (exStream [0x5A, 0x5A] 8) + 0x7FFFFFFF > maxWriteBitNum (exStream [0x5A, 0x5A] 8) \<and>
   wrapS32 (0x7FFFFFFF + bitNum (exStream [0x5A, 0x5A] 8)) = - 2147483641 \<and>
   writeBits 0x7FFFFFFF (\<lambda>k. 0xFF) (exStream [0x5A, 0x5A] 8) = Inl (OutOfBounds (- 268435456)) \<and>
   writeBits 0x7FFFFFFF (\<lambda>k. 0xFF) (exStream [0x5A, 0x5A] 8)
     \<noteq> Inr ((), (exStream [0x5A, 0x5A] 8)\<lparr>error := True\<rparr>) \<and>
   bitNum (exStream [0x5A, 0x5A] 0x7FFFFFFF) + 1 > maxWriteBitNum (exStream [0x5A, 0x5A] 0x7FFFFFFF) \<and>
   writeFlag True (exStream [0x5A, 0x5A] 0x7FFFFFFF) = Inl (OutOfBounds 268435455)"
  by (simp add: writeBits_def writeFlag_def wrapS32_def exStream_def ld_def sto_def
      writeBits_loop.simps)

text \<open>
  C2, amended. Where the sum \<open>bit_cursor + n\<close> fits in an \<open>S32\<close>, a \<open>writeBits\<close> of
  \<open>n > 0\<close> bits with \<open>bit_cursor + n > max_write_bits\<close>, and a \<open>writeFlag\<close> with
  \<open>bit_cursor + 1 > max_write_bits\<close>, set the error flag and change nothing else: the
  state returned is the old one with \<open>error\<close> set, so the buffer and the cursor are as
  before.
\<close>

theorem write_out_of_range_sets_error_only:
  "(0 < n \<and> - (2 ^ 31) \<le> bitNum s \<and> bitNum s + n < 2 ^ 31 \<and> bitNum s + n > maxWriteBitNum s \<longrightarrow>
      writeBits n src s = Inr ((), s\<lparr>error := True\<rparr>)) \<and>
   (- (2 ^ 31) \<le> bitNum s \<and> bitNum s + 1 < 2 ^ 31 \<and> bitNum s + 1 > maxWriteBitNum s \<longrightarrow>
      writeFlag v s = Inr (False, s\<lparr>error := True\<rparr>))"
proof -
  have "wrapS32 (n + bitNum s) = n + bitNum s"
    if "0 < n" "- (2 ^ 31) \<le> bitNum s" "bitNum s + n < 2 ^ 31"
    using that by (intro wrapS32_id) auto
  moreover have "wrapS32 (bitNum s + 1) = bitNum s + 1"
    if "- (2 ^ 31) \<le> bitNum s" "bitNum s + 1 < 2 ^ 31"
    using that by (intro wrapS32_id) auto
  ultimately show ?thesis by (simp add: writeBits_def writeFlag_def add.commute)
qed

theorem write_out_of_range_sets_error_only_witness:
  "(0::int) < 3 \<and> - (2 ^ 31) \<le> bitNum (exStream [0x5A] 6) \<and> bitNum (exStream [0x5A] 6) + 3 < 2 ^ 31 \<and>
   bitNum (exStream [0x5A] 6) + 3 > maxWriteBitNum (exStream [0x5A] 6) \<and>
   writeBits 3 (\<lambda>k. 0x07) (exStream [0x5A] 6) = Inr ((), (exStream [0x5A] 6)\<lparr>error := True\<rparr>) \<and>
   - (2 ^ 31) \<le> bitNum (exStream [0x5A] 8) \<and> bitNum (exStream [0x5A] 8) + 1 < 2 ^ 31 \<and>
   bitNum (exStream [0x5A] 8) + 1 > maxWriteBitNum (exStream [0x5A] 8) \<and>
   writeFlag True (exStream [0x5A] 8) = Inr (False, (exStream [0x5A] 8)\<lparr>error := True\<rparr>)"
  using write_out_of_range_sets_error_only [of 3 "exStream [0x5A] 6" "\<lambda>k. 0x07"]
    write_out_of_range_sets_error_only [of 3 "exStream [0x5A] 8" "\<lambda>k. 0x07" True]
  by (simp add: exStream_def)

text \<open>
  C3, as stated, fails: on an over-read \<open>readBits\<close> returns before it touches the
  destination, so a destination byte \<open>0xAB\<close> comes back as \<open>0xAB\<close>, not zero. And
  where the 32-bit sum of the bounds test wraps the read is not refused at all: a
  read of \<open>0x7FFFFFFF\<close> bits at cursor 8 of a two-byte stream passes the test and
  runs off the buffer.
\<close>

theorem readBits_out_of_range_not_zeroed:
  "(0::int) < 8 \<and> bitNum (exStream [0x5A] 4) + 8 > maxReadBitNum (exStream [0x5A] 4) \<and>
   map_sum id fst (readBits 8 [0xAB] (exStream [0x5A] 4)) = Inr [0xAB] \<and>
   map_sum id fst (readBits 8 [0xAB] (exStream [0x5A] 4)) \<noteq> Inr [0] \<and>
   bitNum (exStream [0x5A, 0x5A] 8) + 0x7FFFFFFF > maxReadBitNum (exStream [0x5A, 0x5A] 8) \<and>
   readBits 0x7FFFFFFF [0xAB] (exStream [0x5A, 0x5A] 8) = Inl (OutOfBounds 2)"
  by (simp add: readBits_def wrapS32_def exStream_def ld_def readBits_loop.simps)

text \<open>
  C3, amended. Where the sum \<open>bit_cursor + n\<close> fits in an \<open>S32\<close>, a \<open>readBits\<close> of
  \<open>n > 0\<close> bits with \<open>bit_cursor + n > max_read_bits\<close> sets the error flag, does not
  advance the cursor, changes nothing else in the stream, and hands the destination
  bytes back exactly as they were.
\<close>

theorem readBits_out_of_range_keeps_destination:
  "0 < n \<Longrightarrow> - (2 ^ 31) \<le> bitNum s \<Longrightarrow> bitNum s + n < 2 ^ 31 \<Longrightarrow>
   bitNum s + n > maxReadBitNum s \<Longrightarrow>
   readBits n dst s = Inr (dst, s\<lparr>error := True\<rparr>)"
proof -
  assume a: "0 < n" "- (2 ^ 31) \<le> bitNum s" "bitNum s + n < 2 ^ 31"
    "bitNum s + n > maxReadBitNum s"
  have "wrapS32 (n + bitNum s) = n + bitNum s" using a(1-3) by (intro wrapS32_id) auto
  then show ?thesis using a(1,4) by (simp add: readBits_def add.commute)
qed

theorem readBits_out_of_range_keeps_destination_witness:
  "(0::int) < 8 \<and> - (2 ^ 31) \<le> bitNum (exStream [0x5A] 4) \<and>
   bitNum (exStream [0x5A] 4) + 8 < 2 ^ 31 \<and>
   bitNum (exStream [0x5A] 4) + 8 > maxReadBitNum (exStream [0x5A] 4) \<and>
   readBits 8 [0xAB] (exStream [0x5A] 4) = Inr ([0xAB], (exStream [0x5A] 4)\<lparr>error := True\<rparr>)"
  using readBits_out_of_range_keeps_destination [of 8 "exStream [0x5A] 4" "[0xAB]"]
  by (simp add: exStream_def)

text \<open>
  C10. A read that passes the bounds check still loads the data byte at index
  \<open>floor(bit_cursor / 8) + ceil(n / 8)\<close>, one past the last byte the read spans:
  with a destination large enough, and \<open>n + 7\<close> (from which the byte count is taken)
  inside the \<open>S32\<close> range, \<open>readBits\<close> returns without a fault exactly when that index
  lies inside the region. On a one-byte buffer with \<open>max_read_bits = 8\<close> an 8-bit read
  at cursor 0 passes the check and faults at index 1.
\<close>

theorem readBits_loads_one_byte_past:
  assumes "0 < n" "0 \<le> bitNum s" "bitNum s + n \<le> maxReadBitNum s"
    "(n + 7) div 8 \<le> int (length dst)" "n + 7 < 2 ^ 31"
  shows "(\<exists>r. readBits n dst s = Inr r) \<longleftrightarrow>
         bitNum s div 8 + (n + 7) div 8 < int (length (dataPtr s))"
  using assms readBits_success_iff [of n s dst] by (simp add: add.commute)

theorem readBits_loads_one_byte_past_witness:
  "(0::int) < 8 \<and> 0 \<le> bitNum (exStream [0x5A] 0) \<and>
   bitNum (exStream [0x5A] 0) + 8 \<le> maxReadBitNum (exStream [0x5A] 0) \<and>
   (8 + 7) div 8 \<le> int (length [0::U8]) \<and> (8::int) + 7 < 2 ^ 31 \<and>
   bitNum (exStream [0x5A] 0) div 8 + (8 + 7) div 8 = 1 \<and>
   \<not> (\<exists>r. readBits 8 [0] (exStream [0x5A] 0) = Inr r) \<and>
   readBits 8 [0] (exStream [0x5A] 0) = Inl (OutOfBounds 1)"
proof -
  have "\<not> (\<exists>r. readBits 8 [0] (exStream [0x5A] 0) = Inr r)"
    using readBits_loads_one_byte_past [of 8 "exStream [0x5A] 0" "[0]"]
    by (simp add: exStream_def)
  moreover have "readBits 8 [0] (exStream [0x5A] 0) = Inl (OutOfBounds 1)"
    by (simp add: readBits_def wrapS32_def exStream_def ld_def readBits_loop.simps)
  ultimately show ?thesis by (simp add: exStream_def)
qed

section \<open>What a successful write touches\<close>

text \<open>
  C4. After a successful \<open>writeBits(n, src)\<close> at bit position \<open>c\<close> (the bounds check
  passed, against a ceiling that is an \<open>S32\<close>, and no access left the buffer) the cursor is \<open>c + n\<close>, the bits of the last
  touched byte above bit index \<open>(c + n - 1) mod 8\<close> are zero, the bits of the first
  touched byte below bit index \<open>c mod 8\<close> keep their prior values, and every byte
  outside \<open>[c div 8, (c + n - 1) div 8]\<close> is unchanged.
\<close>

theorem writeBits_touches_only_its_bits:
  assumes "0 < n" "0 \<le> bitNum s" "bitNum s + n \<le> maxWriteBitNum s"
    "writeBits n src s = Inr ((), s')" "maxWriteBitNum s < 2 ^ 31"
  shows "length (dataPtr s') = length (dataPtr s) \<and> bitNum s' = bitNum s + n \<and>
    (\<forall>b. (bitNum s + n - 1) mod 8 < int b \<longrightarrow>
          \<not> bit (dataPtr s' ! nat ((bitNum s + n - 1) div 8)) b) \<and>
    (\<forall>b. int b < bitNum s mod 8 \<longrightarrow>
          bit (dataPtr s' ! nat (bitNum s div 8)) b = bit (dataPtr s ! nat (bitNum s div 8)) b) \<and>
    (\<forall>j < length (dataPtr s). int j < bitNum s div 8 \<or> (bitNum s + n - 1) div 8 < int j \<longrightarrow>
          dataPtr s' ! j = dataPtr s ! j)"
proof -
  have le: "n + bitNum s \<le> maxWriteBitNum s" using assms(3) by (simp add: add.commute)
  from writeBits_Inr_D[OF assms(1) le assms(4,2,5)]
  have en: "(n + bitNum s - 1) div 8 < int (length (dataPtr s))" by simp
  have st: "bitNum s div 8 \<le> (n + bitNum s - 1) div 8" using assms(1) by (intro zdiv_mono1) auto
  have st0: "0 \<le> bitNum s div 8" using assms(2) by simp
  from writeBits_ok[OF assms(1,2) le en assms(5), of src] assms(4)
  obtain m' where m': "s' = s\<lparr>dataPtr := m', bitNum := bitNum s + n\<rparr>"
    "length m' = length (dataPtr s)"
    "\<And>j. j < length (dataPtr s) \<Longrightarrow> m' ! j = writeBits_byte src (bitNum s) n (dataPtr s) j"
    by auto
  have enj: "nat ((bitNum s + n - 1) div 8) < length (dataPtr s)" using en st st0 by (simp add: add.commute)
  have stj: "nat (bitNum s div 8) < length (dataPtr s)" using en st st0 by simp
  have a: "\<not> bit (m' ! nat ((bitNum s + n - 1) div 8)) b" if "(bitNum s + n - 1) mod 8 < int b" for b
    unfolding m'(3)[OF enj] using st st0 that
    by (intro writeBits_byte_last[OF assms(1,2)]) (simp_all add: add.commute)
  have b: "bit (m' ! nat (bitNum s div 8)) b = bit (dataPtr s ! nat (bitNum s div 8)) b"
    if "int b < bitNum s mod 8" for b
    unfolding m'(3)[OF stj] using st0 that
    by (intro writeBits_byte_first[OF assms(1,2)]) simp_all
  have c: "m' ! j = dataPtr s ! j"
    if "j < length (dataPtr s)" "int j < bitNum s div 8 \<or> (bitNum s + n - 1) div 8 < int j" for j
    unfolding m'(3)[OF that(1)] using that(2) by (rule writeBits_byte_outside)
  show ?thesis using a b c m'(1,2) by simp
qed


theorem writeBits_touches_only_its_bits_witness:
  "(0::int) < 3 \<and> 0 \<le> bitNum (exStream [0xF1, 0xFF] 2) \<and>
   bitNum (exStream [0xF1, 0xFF] 2) + 3 \<le> maxWriteBitNum (exStream [0xF1, 0xFF] 2) \<and>
   writeBits 3 (\<lambda>k. 0xFF) (exStream [0xF1, 0xFF] 2) =
     Inr ((), (exStream [0xF1, 0xFF] 2)\<lparr>dataPtr := [0x1D, 0xFF], bitNum := 5\<rparr>) \<and>
   maxWriteBitNum (exStream [0xF1, 0xFF] 2) < 2 ^ 31 \<and>
   \<not> bit ([0x1D, 0xFF :: U8] ! 0) 5 \<and> \<not> bit ([0x1D, 0xFF :: U8] ! 0) 6 \<and>
   \<not> bit ([0x1D, 0xFF :: U8] ! 0) 7 \<and>
   bit ([0x1D, 0xFF :: U8] ! 0) 0 = bit ([0xF1, 0xFF :: U8] ! 0) 0 \<and>
   bit ([0x1D, 0xFF :: U8] ! 0) 1 = bit ([0xF1, 0xFF :: U8] ! 0) 1 \<and>
   [0x1D, 0xFF :: U8] ! 1 = [0xF1, 0xFF] ! 1"
proof -
  have w: "writeBits 3 (\<lambda>k. 0xFF) (exStream [0xF1, 0xFF] 2) =
     Inr ((), (exStream [0xF1, 0xFF] 2)\<lparr>dataPtr := [0x1D, 0xFF], bitNum := 5\<rparr>)"
    by (simp add: writeBits_def wrapS32_def exStream_def ld_def sto_def writeBits_loop.simps)
  have h: "(0::int) < 3" "0 \<le> bitNum (exStream [0xF1, 0xFF] 2)"
    "bitNum (exStream [0xF1, 0xFF] 2) + 3 \<le> maxWriteBitNum (exStream [0xF1, 0xFF] 2)"
    by (simp_all add: exStream_def)
  have h31: "maxWriteBitNum (exStream [0xF1, 0xFF] 2) < 2 ^ 31" by (simp add: exStream_def)
  note t = writeBits_touches_only_its_bits [OF h w h31]
  have a: "\<not> bit ([0x1D, 0xFF :: U8] ! 0) b" if "4 < int b" for b
    using t that by (simp add: exStream_def)
  have b: "bit ([0x1D, 0xFF :: U8] ! 0) b = bit ([0xF1, 0xFF :: U8] ! 0) b" if "int b < 2" for b
    using t that by (simp add: exStream_def)
  have c: "[0x1D, 0xFF :: U8] ! 1 = [0xF1, 0xFF] ! 1"
    using t by (simp add: exStream_def)
  from a [of 5] a [of 6] a [of 7] b [of 0] b [of 1] c h w h31 show ?thesis by simp
qed

section \<open>Signed integers\<close>

text \<open>
  C1, as stated, fails at the lower end of the interval. For \<open>n = 2\<close> and \<open>v = -2\<close>
  the sign flag is written, then the magnitude \<open>2\<close> in one bit, which is \<open>0\<close>; the
  value read back is \<open>0\<close>.
\<close>

theorem signedInt_lower_bound_lost:
  "(1::nat) < 2 \<and> (2::nat) \<le> 32 \<and> - (2 ^ (2 - 1)) \<le> (- 2 :: int) \<and> (- 2 :: int) < 2 ^ (2 - 1) \<and>
   writeSignedInt (word_of_int (- 2)) 2 (exStream [0, 0] 0) =
     Inr ((), (exStream [0, 0] 0)\<lparr>dataPtr := [1, 0], bitNum := 2\<rparr>) \<and>
   readSignedInt 2 ((exStream [0, 0] 0)\<lparr>dataPtr := [1, 0], bitNum := 0\<rparr>) =
     Inr (0, (exStream [0, 0] 0)\<lparr>dataPtr := [1, 0], bitNum := 2\<rparr>) \<and>
   sint (0 :: S32) \<noteq> - 2"
  by (simp add: writeSignedInt_def readSignedInt_def writeInt_def readInt_def writeFlag_def
      readFlag_def writeBits_def readBits_def wrapS32_def exStream_def ld_def sto_def bindM_def returnM_def
      writeBits_loop.simps readBits_loop.simps le_bytes_def word_of_bytes_def)

text \<open>
  C1, amended. For every bit width \<open>n\<close> with \<open>1 < n \<le> 32\<close> and every \<open>v\<close> with
  \<open>-2^(n-1) < v < 2^(n-1)\<close>, on a stream at cursor \<open>c\<close> whose two ceilings (\<open>S32\<close>
  values) leave room for \<open>n\<close> bits and whose buffer holds index \<open>(c + 1) div 8 + (n + 6) div 8\<close> (the
  byte \<open>readBits\<close> loads last), \<open>writeSignedInt(v, n)\<close> succeeds and advances the
  cursor by \<open>n\<close>, and \<open>readSignedInt(n)\<close> at the same bit position returns exactly
  \<open>v\<close>.
\<close>

theorem signedInt_roundtrip:
  fixes n :: nat and v :: int
  assumes "1 < n" "n \<le> 32" "- (2 ^ (n - 1)) < v" "v < 2 ^ (n - 1)"
    and "0 \<le> bitNum s"
    and "bitNum s + int n \<le> maxWriteBitNum s" "bitNum s + int n \<le> maxReadBitNum s"
    and "(bitNum s + 1) div 8 + (int n + 6) div 8 < int (length (dataPtr s))"
    and "maxWriteBitNum s < 2 ^ 31" "maxReadBitNum s < 2 ^ 31"
  shows "\<exists>s1 r s2.
           writeSignedInt (word_of_int v) (int n) s = Inr ((), s1) \<and>
           bitNum s1 = bitNum s + int n \<and>
           readSignedInt (int n) (s1\<lparr>bitNum := bitNum s\<rparr>) = Inr (r, s2) \<and>
           sint r = v \<and> bitNum s2 = bitNum s + int n"
proof -
  obtain c where c: "bitNum s = int c" using assms(5) nonneg_int_cases by blast
  have "int c + 1 = int (c + 1)" "int n + 6 = int (n + 6)" by simp_all
  then have "(int c + 1) div 8 + (int n + 6) div 8 = int ((c + 1) div 8 + (n + 6) div 8)"
    by (simp only: zdiv_int of_nat_add of_nat_numeral)
  then have len: "(c + 1) div 8 + (n + 6) div 8 < length (dataPtr s)"
    using assms(8) c by simp
  have p31: "(2::int) ^ (n - 1) \<le> 2 ^ 31" using assms(1,2) by (intro power_increasing) auto
  have sv: "sint (word_of_int v :: 32 word) = v"
    using assms(3,4) p31 by (intro sint_word_of_int_32) auto
  from signedInt_roundtrip_nat[OF assms(1-4) c _ _ len assms(9,10)] assms(6,7) c
  obtain m' where "writeSignedInt (word_of_int v) (int n) s =
        Inr ((), s\<lparr>dataPtr := m', bitNum := int (c + n)\<rparr>)"
    "readSignedInt (int n) (s\<lparr>dataPtr := m', bitNum := int c\<rparr>) =
        Inr (word_of_int v, s\<lparr>dataPtr := m', bitNum := int (c + n)\<rparr>)"
    by auto
  then show ?thesis using sv c by auto
qed

theorem signedInt_roundtrip_witness:
  "(1::nat) < 16 \<and> (16::nat) \<le> 32 \<and> - (2 ^ (16 - 1)) < (- 1234 :: int) \<and> (- 1234 :: int) < 2 ^ (16 - 1) \<and>
   0 \<le> bitNum (exStream [0, 0, 0, 0] 3) \<and>
   bitNum (exStream [0, 0, 0, 0] 3) + int 16 \<le> maxWriteBitNum (exStream [0, 0, 0, 0] 3) \<and>
   bitNum (exStream [0, 0, 0, 0] 3) + int 16 \<le> maxReadBitNum (exStream [0, 0, 0, 0] 3) \<and>
   (bitNum (exStream [0, 0, 0, 0] 3) + 1) div 8 + (int 16 + 6) div 8
      < int (length (dataPtr (exStream [0, 0, 0, 0] 3))) \<and>
   maxWriteBitNum (exStream [0, 0, 0, 0] 3) < 2 ^ 31 \<and>
   maxReadBitNum (exStream [0, 0, 0, 0] 3) < 2 ^ 31 \<and>
   (\<exists>s1 r s2.
      writeSignedInt (word_of_int (- 1234)) (int 16) (exStream [0, 0, 0, 0] 3) = Inr ((), s1) \<and>
      bitNum s1 = bitNum (exStream [0, 0, 0, 0] 3) + int 16 \<and>
      readSignedInt (int 16) (s1\<lparr>bitNum := bitNum (exStream [0, 0, 0, 0] 3)\<rparr>) = Inr (r, s2) \<and>
      sint r = - 1234 \<and> bitNum s2 = bitNum (exStream [0, 0, 0, 0] 3) + int 16)"
proof -
  have h: "(1::nat) < 16" "(16::nat) \<le> 32" "- (2 ^ (16 - 1)) < (- 1234 :: int)"
    "(- 1234 :: int) < 2 ^ (16 - 1)"
    "0 \<le> bitNum (exStream [0, 0, 0, 0] 3)"
    "bitNum (exStream [0, 0, 0, 0] 3) + int 16 \<le> maxWriteBitNum (exStream [0, 0, 0, 0] 3)"
    "bitNum (exStream [0, 0, 0, 0] 3) + int 16 \<le> maxReadBitNum (exStream [0, 0, 0, 0] 3)"
    "(bitNum (exStream [0, 0, 0, 0] 3) + 1) div 8 + (int 16 + 6) div 8
      < int (length (dataPtr (exStream [0, 0, 0, 0] 3)))"
    "maxWriteBitNum (exStream [0, 0, 0, 0] 3) < 2 ^ 31"
    "maxReadBitNum (exStream [0, 0, 0, 0] 3) < 2 ^ 31"
    by (simp_all add: exStream_def)
  from signedInt_roundtrip [OF h] h show ?thesis by blast
qed

section \<open>Compaction of the unbounded stream\<close>

text \<open>
  C9 does not hold of the code. \<open>compact\<close> calls \<open>dMalloc(bufSize)\<close> before it
  assigns the new \<open>bufSize\<close>, so the block it installs has the old size, whatever
  \<open>position + 2 * min_space\<close> is. With a 4-byte stream at byte position 1 and
  \<open>mMinSpace = 4\<close> the stream afterwards records \<open>bufSize = 9\<close> and ceilings of 72
  bits over a 4-byte block, and an 8-bit write at bit 32 passes the bounds check
  and leaves the block.
\<close>

theorem compact_keeps_old_block_size:
  "compact junk exCompact =
     Inr ((), exCompact\<lparr>bufSize := 9, dataPtr := [1, 2, 3, 4],
                         maxReadBitNum := 72, maxWriteBitNum := 72\<rparr>) \<and>
   getPosition exCompact + 2 * mMinSpace exCompact = 9 \<and>
   length [1, 2, 3, 4 :: U8] \<noteq> 9 \<and>
   writeBits 8 (\<lambda>k. 0xFF)
     (exCompact\<lparr>bufSize := 9, dataPtr := [1, 2, 3, 4],
                 maxReadBitNum := 72, maxWriteBitNum := 72, bitNum := 32\<rparr>)
     = Inl (OutOfBounds 4)"
  by (simp add: compact_def exCompact_def exStream_def getPosition_def dMalloc_def dMemcpy_def
      writeBits_def wrapS32_def wrapU32_def ld_def)

text \<open>
  In general the installed block has exactly the old \<open>bufSize\<close> bytes, a copy of the
  first \<open>bufSize\<close> bytes of the old block; the cursor is kept.
\<close>

lemma compact_block:
  assumes "0 \<le> bufSize s" "bufSize s \<le> int (length (dataPtr s))"
  shows "compact junk s =
           Inr ((), s\<lparr>bufSize := wrapS32 (getPosition s + mMinSpace s * 2),
                       dataPtr := take (nat (bufSize s)) (dataPtr s),
                       maxReadBitNum := wrapS32 (wrapS32 (getPosition s + mMinSpace s * 2) * 8),
                       maxWriteBitNum := wrapS32 (wrapS32 (getPosition s + mMinSpace s * 2) * 8)\<rparr>)"
  using assms by (simp add: compact_def dMemcpy_def dMalloc_def Let_def)

section \<open>The Huffman body\<close>


lemma length_bytesField [simp]: "length (bytesField bs) = 8 * length bs"
  by (induction bs) (simp_all add: bytesField_def)











section \<open>Strings on the wire\<close>








section \<open>The error flag\<close>

text \<open>
  C5, as stated, fails: \<open>setBuffer\<close> assigns \<open>error = false\<close>, so binding a buffer
  to a stream whose flag is set clears the flag.
\<close>

theorem setBuffer_clears_error:
  "error ((exStream [0x5A] 0)\<lparr>error := True\<rparr>) \<and>
   map_sum id (\<lambda>r. error (snd r)) (setBuffer [0x5A] 1 1 ((exStream [0x5A] 0)\<lparr>error := True\<rparr>)) = Inr False"
  by (simp add: setBuffer_def clearCompressionPoint_def exStream_def)

text \<open>
  C5, amended. The error flag is monotone under every read and write of bits, flags,
  integers, floats, vectors, transforms, class ids, compressed points and strings,
  under the position changes, the compression-point and scratch setters and the
  growth operations: if \<open>error\<close> is set before such an operation returns, it is set
  afterwards. Buffer binding is the exception: \<open>setBuffer\<close>, and \<open>getPacketStream\<close>
  through it, return with \<open>error\<close> cleared.
\<close>

theorem error_flag_sticky_except_binding:
  "keeps_error (writeFlag v) \<and>
   (\<forall>s r s'. setBuffer bufPtr size' maxSize s = Inr (r, s') \<longrightarrow> \<not> error s') \<and>
   (\<forall>s r s'. getPacketStream MaxPacketDataSize gPacketBuffer writeSize s = Inr (r, s')
       \<longrightarrow> \<not> error s') \<and>
   keeps_error (writeBits n src) \<and> keeps_error (readBits n dst) \<and>
   keeps_error readFlag \<and>
   keeps_error (setBit i b) \<and> keeps_error (testBit i) \<and>
   keeps_error (write_raw n src) \<and> keeps_error (read_raw n dst) \<and>
   keeps_error (writeInt val n) \<and> keeps_error (readInt n) \<and>
   keeps_error (writeSignedInt val n) \<and> keeps_error (readSignedInt n) \<and>
   keeps_error (write_F32 f) \<and> keeps_error (read_F32 f) \<and>
   keeps_error (writeFloat fp f n) \<and> keeps_error (readFloat fp n) \<and>
   keeps_error (writeSignedFloat fp f n) \<and> keeps_error (readSignedFloat fp n) \<and>
   keeps_error (writeNormalVector fp vec n) \<and> keeps_error (readNormalVector fp n) \<and>
   keeps_error (writeNormalVector2 fp vec a z) \<and> keeps_error (readNormalVector2 fp a z) \<and>
   keeps_error (writeVector fp vec minMag maxMag magBits a z) \<and>
   keeps_error (readVector fp mag0 minMag maxMag magBits a z) \<and>
   keeps_error (writeAffineTransform fp matrix) \<and> keeps_error (readAffineTransform fp pos0 q0) \<and>
   keeps_error (writeClassId bitSize classId) \<and> keeps_error (readClassId bitSize count) \<and>
   keeps_error (writeCompressedPoint fp p scale) \<and> keeps_error (readCompressedPoint fp p scale) \<and>
   keeps_error (writeString hp string maxLen) \<and> keeps_error (readString hp buf) \<and>
   keeps_error (setPosition pos) \<and> keeps_error (setCurPos pos) \<and>
   keeps_error clearCompressionPoint \<and> keeps_error (setCompressionPoint p) \<and>
   keeps_error (setStringBuffer sb) \<and>
   keeps_error (ResizeBitStream_validate junk) \<and> keeps_error (InfiniteBitStream_validate junk n) \<and>
   keeps_error (compact junk) \<and> keeps_error InfiniteBitStream_reset"
  by (auto simp: setBuffer_def getPacketStream_def clearCompressionPoint_def setPosition_def
      bindM_def)

theorem error_flag_sticky_except_binding_witness:
  "error ((exStream [0] 0)\<lparr>error := True\<rparr>) \<and>
   writeFlag True ((exStream [0] 0)\<lparr>error := True\<rparr>) =
     Inr (True, (exStream [0] 0)\<lparr>error := True, dataPtr := [1], bitNum := 1\<rparr>) \<and>
   error ((exStream [0] 0)\<lparr>error := True, dataPtr := [1], bitNum := 1\<rparr>) \<and>
   setBuffer [0] 1 1 ((exStream [0] 0)\<lparr>error := True\<rparr>) =
     Inr ((), (exStream [0] 0)\<lparr>error := False\<rparr>) \<and>
   \<not> error ((exStream [0] 0)\<lparr>error := False\<rparr>)"
proof -
  have e: "error ((exStream [0] 0)\<lparr>error := True\<rparr>)" by simp
  have w: "writeFlag True ((exStream [0] 0)\<lparr>error := True\<rparr>) =
     Inr (True, (exStream [0] 0)\<lparr>error := True, dataPtr := [1], bitNum := 1\<rparr>)"
    by (simp add: writeFlag_def wrapS32_def exStream_def ld_def sto_def)
  have b: "setBuffer [0] 1 1 ((exStream [0] 0)\<lparr>error := True\<rparr>) =
     Inr ((), (exStream [0] 0)\<lparr>error := False\<rparr>)"
    by (simp add: setBuffer_def wrapS32_def clearCompressionPoint_def exStream_def)
  note t = error_flag_sticky_except_binding [where v = True and bufPtr = "[0]" and size' = 1
      and maxSize = 1]
  have k: "keeps_error (writeFlag True)"
    by (rule t [THEN conjunct1])
  have n: "\<forall>s r s'. setBuffer [0] 1 1 s = Inr (r, s') \<longrightarrow> \<not> error s'"
    by (rule t [THEN conjunct2, THEN conjunct1])
  from k e w have "error ((exStream [0] 0)\<lparr>error := True, dataPtr := [1], bitNum := 1\<rparr>)"
    unfolding keeps_error_def by blast
  moreover from n b have "\<not> error ((exStream [0] 0)\<lparr>error := False\<rparr>)" by blast
  ultimately show ?thesis using e w b by blast
qed

end
